theory Spec2Isabelle
  imports Main "HOL-Library.Multiset" "HOL-Library.Sublist"
begin

section \<open>Values shared by the helpers\<close>

text \<open>
  The helpers of \<^verbatim>\<open>utils.py\<close> catch nothing: every exception of a library call
  leaves the helper unchanged. The model returns it as the left summand.
\<close>

datatype error =
    OSError
  | UnicodeDecodeError
  | UnicodeEncodeError
  | BinasciiError
  | AttributeError
  | ValueError
  | CredentialsError
  | ParseError
  | PlaylistError

text \<open>
  A Python \<^verbatim>\<open>bytes\<close> value is a list of 8-bit characters, so a \<open>string\<close>; a Python
  \<^verbatim>\<open>str\<close> is a list of code points.
\<close>

type_synonym bytes = string
type_synonym unicode = "nat list"

definition str :: "string \<Rightarrow> unicode" where
  "str s = map of_char s"

section \<open>XML tag counter\<close>

text \<open>
  An element of \<^verbatim>\<open>xml.etree.ElementTree\<close>: its tag and, in document order, its child
  elements (iterating over an element yields its children). Attributes and character
  data play no part in the helpers.
\<close>

datatype element = Element (tag: string) (children: "element list")

text \<open>
  What \<^verbatim>\<open>ET.iterparse\<close> yields: an (event, element) pair, or with another parser
  implementation a bare element.
\<close>

datatype parse_item = Pair string element | Bare element

text \<open>
  \<^verbatim>\<open>collections.Counter(xs)\<close>: a dictionary in insertion order, built by
  \<^verbatim>\<open>self[elem] = self.get(elem, 0) + 1\<close> for each element in turn.
\<close>

fun counter_update :: "'a \<Rightarrow> ('a \<times> nat) list \<Rightarrow> ('a \<times> nat) list" where
  "counter_update k [] = [(k, 1)]"
| "counter_update k ((k', n) # c) =
     (if k = k' then (k', n + 1) # c else (k', n) # counter_update k c)"

definition Counter :: "'a list \<Rightarrow> ('a \<times> nat) list" where
  "Counter xs = foldl (\<lambda>c k. counter_update k c) [] xs"

definition dict_keys :: "('a \<times> nat) list \<Rightarrow> 'a list" where
  "dict_keys c = map fst c"

definition dict_values :: "('a \<times> nat) list \<Rightarrow> nat list" where
  "dict_values c = map snd c"

text \<open>\<^verbatim>\<open>dict(pairs)\<close>: the pairs are stored in turn, a later one overwriting.\<close>

definition dict :: "('a \<times> 'b) list \<Rightarrow> ('a \<rightharpoonup> 'b)" where
  "dict kvs = foldl (\<lambda>m (k, v). m(k \<mapsto> v)) Map.empty kvs"

definition item_tag :: "parse_item \<Rightarrow> string" where
  "item_tag element = (case element of Pair pos ele \<Rightarrow> tag ele | Bare el \<Rightarrow> tag el)"

text \<open>
  \<^verbatim>\<open>count_tags\<close>. The incremental parser is the library's: \<open>iterparse\<close> gives, for the
  text of a document, the items the loop receives, or the parse error of a malformed text.
\<close>

definition count_tags ::
  "(string \<Rightarrow> error + parse_item list) \<Rightarrow> string \<Rightarrow> error + (string \<rightharpoonup> nat)" where
  "count_tags iterparse xml_content =
     (case iterparse xml_content of
        Inl e \<Rightarrow> Inl e
      | Inr items \<Rightarrow>
          (let xml_tags = map item_tag items;
               xml_keys = dict_keys (Counter xml_tags);
               xml_values = dict_values (Counter xml_tags);
               xml_dict = dict (zip xml_keys xml_values)
           in Inr xml_dict))"

definition count_child_element_tags_for_element :: "element \<Rightarrow> (string \<rightharpoonup> nat)" where
  "count_child_element_tags_for_element parent_element =
     (let xml_tags = map tag (children parent_element);
          xml_keys = dict_keys (Counter xml_tags);
          xml_values = dict_values (Counter xml_tags);
          xml_dict = dict (zip xml_keys xml_values)
      in xml_dict)"

subsection \<open>Documents\<close>

text \<open>All elements of a document: the root and, recursively, those of its subtrees.\<close>

fun elements :: "element \<Rightarrow> element list" where
  "elements (Element t cs) = Element t cs # concat (map elements cs)"

text \<open>
  The default events of \<^verbatim>\<open>ET.iterparse\<close>: one \<^verbatim>\<open>("end", elem)\<close> pair for each element,
  when its end tag has been read.
\<close>

fun end_events :: "element \<Rightarrow> parse_item list" where
  "end_events (Element t cs) = concat (map end_events cs) @ [Pair ''end'' (Element t cs)]"

definition item_element :: "parse_item \<Rightarrow> element" where
  "item_element i = (case i of Pair pos ele \<Rightarrow> ele | Bare el \<Rightarrow> el)"

text \<open>
  A parser run reports a document when it yields each element of the document once, in
  whatever order and shape.
\<close>

definition reports :: "parse_item list \<Rightarrow> element \<Rightarrow> bool" where
  "reports items root \<longleftrightarrow> mset (map item_element items) = mset (elements root)"

text \<open>The count a frequency table gives a tag; a tag that is no key counts as 0.\<close>

definition count_of :: "('a \<rightharpoonup> nat) \<Rightarrow> 'a \<Rightarrow> nat" where
  "count_of m k = (case m k of None \<Rightarrow> 0 | Some n \<Rightarrow> n)"

text \<open>
  Two documents that differ by the order of sibling elements, at any depth: the children
  of the one are, subtree for subtree, a rearrangement of the children of the other.
\<close>

inductive sibling_permuted :: "element \<Rightarrow> element \<Rightarrow> bool" where
  "list_all2 sibling_permuted cs ds \<Longrightarrow> mset ds = mset cs' \<Longrightarrow>
     sibling_permuted (Element t cs) (Element t cs')"

text \<open>
  \<open>xml_content\<close> is the text of a well-formed document with root \<open>root\<close>: the parser
  accepts it and reports that document.
\<close>

definition document :: "(string \<Rightarrow> error + parse_item list) \<Rightarrow> string \<Rightarrow> element \<Rightarrow> bool" where
  "document iterparse xml_content root \<longleftrightarrow>
     (\<exists>items. iterparse xml_content = Inr items \<and> reports items root)"

text \<open>The tag names of a document, one for each element.\<close>

definition tags :: "element \<Rightarrow> string list" where
  "tags root = map tag (elements root)"

text \<open>
  Two small documents, \<^verbatim>\<open><a><b/><c><b/></c></a>\<close> and the same with the children of
  \<^verbatim>\<open>a\<close> exchanged, and a parser that knows them and their subtrees.
\<close>

definition example_doc :: element where
  "example_doc = Element ''a'' [Element ''b'' [], Element ''c'' [Element ''b'' []]]"

definition example_doc_swapped :: element where
  "example_doc_swapped = Element ''a'' [Element ''c'' [Element ''b'' []], Element ''b'' []]"

definition example_iterparse :: "string \<Rightarrow> error + parse_item list" where
  "example_iterparse xml_content =
     (if xml_content = ''<a><b/><c><b/></c></a>'' then Inr (end_events example_doc)
      else if xml_content = ''<a><c><b/></c><b/></a>'' then Inr (end_events example_doc_swapped)
      else if xml_content = ''<b/>'' then Inr (end_events (Element ''b'' []))
      else if xml_content = ''<c><b/></c>'' then Inr (end_events (Element ''c'' [Element ''b'' []]))
      else Inl ParseError)"

section \<open>HLS tag decoder\<close>

subsection \<open>Base64\<close>

text \<open>
  \<^verbatim>\<open>base64.b64decode(s)\<close> with its default \<^verbatim>\<open>validate=False\<close> is
  \<^verbatim>\<open>binascii.a2b_base64(s)\<close> in non-strict mode. \<open>table_a2b_base64\<close> gives the value of
  a byte of the alphabet \<^verbatim>\<open>A-Z a-z 0-9 + /\<close>, and nothing for any other byte.
\<close>

definition table_a2b_base64 :: "char \<Rightarrow> nat option" where
  "table_a2b_base64 c =
     (let n = of_char c :: nat in
      if 65 \<le> n \<and> n \<le> 90 then Some (n - 65)
      else if 97 \<le> n \<and> n \<le> 122 then Some (n - 71)
      else if 48 \<le> n \<and> n \<le> 57 then Some (n + 4)
      else if n = 43 then Some 62
      else if n = 47 then Some 63
      else None)"

definition in_alphabet :: "char \<Rightarrow> bool" where
  "in_alphabet c \<longleftrightarrow> table_a2b_base64 c \<noteq> None"

text \<open>
  The decoded bytes are written to a buffer that is returned only when no error is raised.
\<close>

definition emit :: "'a \<Rightarrow> error + 'a list \<Rightarrow> error + 'a list" where
  "emit b r = (case r of Inl e \<Rightarrow> Inl e | Inr bs \<Rightarrow> Inr (b # bs))"

text \<open>
  The decoding loop, with its state \<open>quad_pos\<close>, \<open>leftchar\<close> and \<open>pads\<close>. A byte outside
  the alphabet is skipped. A pad \<^verbatim>\<open>=\<close> ends the decoding, whatever follows, once
  \<open>quad_pos \<ge> 2\<close> and the pads complete the quad, and is skipped otherwise. When the input
  ends inside a quad, \<^verbatim>\<open>binascii.Error\<close> is raised.
\<close>

fun a2b_base64 :: "nat \<Rightarrow> nat \<Rightarrow> nat \<Rightarrow> bytes \<Rightarrow> error + bytes" where
  "a2b_base64 quad_pos leftchar pads [] =
     (if quad_pos \<noteq> 0 then Inl BinasciiError else Inr [])"
| "a2b_base64 quad_pos leftchar pads (c # ascii_data) =
     (if c = CHR ''='' then
        (if quad_pos \<ge> 2 \<and> quad_pos + (pads + 1) \<ge> 4 then Inr []
         else a2b_base64 quad_pos leftchar (if quad_pos \<ge> 2 then pads + 1 else pads) ascii_data)
      else
        (case table_a2b_base64 c of
           None \<Rightarrow> a2b_base64 quad_pos leftchar pads ascii_data
         | Some this_ch \<Rightarrow>
             (if quad_pos = 0 then a2b_base64 1 this_ch 0 ascii_data
              else if quad_pos = 1 then
                emit (char_of (leftchar * 4 + this_ch div 16))
                  (a2b_base64 2 (this_ch mod 16) 0 ascii_data)
              else if quad_pos = 2 then
                emit (char_of (leftchar * 16 + this_ch div 4))
                  (a2b_base64 3 (this_ch mod 4) 0 ascii_data)
              else
                emit (char_of (leftchar * 64 + this_ch))
                  (a2b_base64 0 0 0 ascii_data))))"

definition b64decode :: "bytes \<Rightarrow> error + bytes" where
  "b64decode s = a2b_base64 0 0 0 s"

text \<open>
  \<^verbatim>\<open>base64.b64encode\<close>, the standard encoding with padding
  (\<^verbatim>\<open>binascii.b2a_base64\<close> without the newline).
\<close>

definition table_b2a_base64 :: "nat \<Rightarrow> char" where
  "table_b2a_base64 n =
     (if n < 26 then char_of (n + 65)
      else if n < 52 then char_of (n + 71)
      else if n < 62 then char_of (n - 4)
      else if n = 62 then CHR ''+''
      else CHR ''/'')"

fun b2a_base64 :: "nat list \<Rightarrow> bytes" where
  "b2a_base64 [] = []"
| "b2a_base64 [a] =
     [table_b2a_base64 (a div 4), table_b2a_base64 (a mod 4 * 16), CHR ''='', CHR ''='']"
| "b2a_base64 [a, b] =
     [table_b2a_base64 (a div 4), table_b2a_base64 (a mod 4 * 16 + b div 16),
      table_b2a_base64 (b mod 16 * 4), CHR ''='']"
| "b2a_base64 (a # b # c # bin_data) =
     [table_b2a_base64 (a div 4), table_b2a_base64 (a mod 4 * 16 + b div 16),
      table_b2a_base64 (b mod 16 * 4 + c div 64), table_b2a_base64 (c mod 64)]
     @ b2a_base64 bin_data"

definition b64encode :: "bytes \<Rightarrow> bytes" where
  "b64encode s = b2a_base64 (map of_char s)"

text \<open>
  Well-formed base64 in the sense of RFC 4648: groups of four bytes of the alphabet, the
  last group possibly ending in one or two pads.
\<close>

fun valid_base64 :: "bytes \<Rightarrow> bool" where
  "valid_base64 [] = True"
| "valid_base64 [a, b, c, d] =
     (table_a2b_base64 a \<noteq> None \<and> table_a2b_base64 b \<noteq> None \<and>
      (table_a2b_base64 c \<noteq> None \<and> (table_a2b_base64 d \<noteq> None \<or> d = CHR ''='') \<or>
       c = CHR ''='' \<and> d = CHR ''=''))"
| "valid_base64 (a # b # c # d # s) =
     (table_a2b_base64 a \<noteq> None \<and> table_a2b_base64 b \<noteq> None \<and>
      table_a2b_base64 c \<noteq> None \<and> table_a2b_base64 d \<noteq> None \<and> valid_base64 s)"
| "valid_base64 _ = False"

subsection \<open>UTF-8\<close>

text \<open>
  \<^verbatim>\<open>bytes.decode('utf-8')\<close>, strict: a sequence is accepted when its continuation bytes
  are in place and it is the shortest encoding of a code point below \<^verbatim>\<open>0x110000\<close> that is
  no surrogate; anything else raises \<^verbatim>\<open>UnicodeDecodeError\<close>.
\<close>

definition continuation :: "nat \<Rightarrow> bool" where
  "continuation b \<longleftrightarrow> 128 \<le> b \<and> b < 192"

fun utf8_decode_codes :: "nat list \<Rightarrow> error + unicode" where
  "utf8_decode_codes [] = Inr []"
| "utf8_decode_codes (b0 # bs) =
     (if b0 < 128 then emit b0 (utf8_decode_codes bs)
      else if 192 \<le> b0 \<and> b0 < 224 then
        (case bs of
           b1 # r \<Rightarrow>
             (let cp = (b0 - 192) * 64 + (b1 - 128)
              in if continuation b1 \<and> 128 \<le> cp then emit cp (utf8_decode_codes r)
                 else Inl UnicodeDecodeError)
         | _ \<Rightarrow> Inl UnicodeDecodeError)
      else if 224 \<le> b0 \<and> b0 < 240 then
        (case bs of
           b1 # b2 # r \<Rightarrow>
             (let cp = (b0 - 224) * 4096 + (b1 - 128) * 64 + (b2 - 128)
              in if continuation b1 \<and> continuation b2 \<and> 2048 \<le> cp \<and>
                    \<not> (55296 \<le> cp \<and> cp < 57344)
                 then emit cp (utf8_decode_codes r)
                 else Inl UnicodeDecodeError)
         | _ \<Rightarrow> Inl UnicodeDecodeError)
      else if 240 \<le> b0 \<and> b0 < 248 then
        (case bs of
           b1 # b2 # b3 # r \<Rightarrow>
             (let cp = (b0 - 240) * 262144 + (b1 - 128) * 4096 + (b2 - 128) * 64 + (b3 - 128)
              in if continuation b1 \<and> continuation b2 \<and> continuation b3 \<and>
                    65536 \<le> cp \<and> cp < 1114112
                 then emit cp (utf8_decode_codes r)
                 else Inl UnicodeDecodeError)
         | _ \<Rightarrow> Inl UnicodeDecodeError)
      else Inl UnicodeDecodeError)"

definition utf8_decode :: "bytes \<Rightarrow> error + unicode" where
  "utf8_decode bs = utf8_decode_codes (map of_char bs)"

text \<open>
  \<^verbatim>\<open>str.encode('utf-8')\<close>, strict: a surrogate raises \<^verbatim>\<open>UnicodeEncodeError\<close>. (A number
  from \<^verbatim>\<open>0x110000\<close> on is no code point of a Python string.)
\<close>

definition utf8_encode_code :: "nat \<Rightarrow> error + nat list" where
  "utf8_encode_code cp =
     (if cp < 128 then Inr [cp]
      else if cp < 2048 then Inr [192 + cp div 64, 128 + cp mod 64]
      else if 55296 \<le> cp \<and> cp < 57344 then Inl UnicodeEncodeError
      else if cp < 65536 then
        Inr [224 + cp div 4096, 128 + cp div 64 mod 64, 128 + cp mod 64]
      else if cp < 1114112 then
        Inr [240 + cp div 262144, 128 + cp div 4096 mod 64, 128 + cp div 64 mod 64,
             128 + cp mod 64]
      else Inl UnicodeEncodeError)"

fun utf8_encode :: "unicode \<Rightarrow> error + bytes" where
  "utf8_encode [] = Inr []"
| "utf8_encode (cp # t) =
     (case utf8_encode_code cp of
        Inl e \<Rightarrow> Inl e
      | Inr codes \<Rightarrow>
          (case utf8_encode t of
             Inl e \<Rightarrow> Inl e
           | Inr r \<Rightarrow> Inr (map char_of codes @ r)))"

subsection \<open>The decoder functions\<close>

definition decode_b64_bytes :: "bytes \<Rightarrow> error + unicode" where
  "decode_b64_bytes text_in_bytes =
     (case b64decode text_in_bytes of Inl e \<Rightarrow> Inl e | Inr raw \<Rightarrow> utf8_decode raw)"

text \<open>
  \<^verbatim>\<open>s.replace(old, new)\<close>: every occurrence of \<open>old\<close>, found from left to right without
  overlap, is replaced; an empty \<open>old\<close> matches before every character and at the end.
\<close>

function str_replace :: "'a list \<Rightarrow> 'a list \<Rightarrow> 'a list \<Rightarrow> 'a list" where
  "str_replace old new s =
     (if old = [] then new @ concat (map (\<lambda>c. c # new) s)
      else if s = [] then []
      else if prefix old s then new @ str_replace old new (drop (length old) s)
      else hd s # str_replace old new (tl s))"
  by pat_completeness auto
termination
  by (relation "measure (\<lambda>(old, new, s). length s)") auto

declare str_replace.simps [simp del]


definition parse_ext_x_session_key_contents ::
  "(unicode \<Rightarrow> error + 'p) \<Rightarrow> bytes \<Rightarrow> error + 'p" where
  "parse_ext_x_session_key_contents loads text_in_bytes =
     (case decode_b64_bytes text_in_bytes of
        Inl e \<Rightarrow> Inl e
      | Inr t \<Rightarrow>
          (let decoded_text =
                 str_replace (str ''#EXT-X-SESSION-KEY:METHOD'') (str ''#EXT-X-KEY:METHOD'') t
           in loads decoded_text))"

text \<open>
  Replacing the first occurrence only, as the specification words the rewriting of the
  session-key tag.
\<close>

fun replace_first :: "'a list \<Rightarrow> 'a list \<Rightarrow> 'a list \<Rightarrow> 'a list" where
  "replace_first old new [] = (if old = [] then new else [])"
| "replace_first old new (c # s) =
     (if prefix old (c # s) then new @ drop (length old) (c # s)
      else c # replace_first old new s)"

text \<open>
  \<open>join sep us\<close> is \<^verbatim>\<open>sep.join(us)\<close>. A text with \<open>n\<close> occurrences of \<open>sep\<close> is the join
  of the \<open>n + 1\<close> pieces between them.
\<close>

fun join :: "'a list \<Rightarrow> 'a list list \<Rightarrow> 'a list" where
  "join sep [] = []"
| "join sep [u] = u"
| "join sep (u # v # us) = u @ sep @ join sep (v # us)"


section \<open>Signed request sender\<close>

text \<open>
  The signing adapter \<^verbatim>\<open>AWSRequestsAuth\<close> keeps what it is constructed with; the
  credentials are the dictionary of \<^verbatim>\<open>boto_utils.get_credentials()\<close>. Host names and URLs
  are strings of 8-bit characters.
\<close>

record aws_requests_auth =
  aws_access_key :: string
  aws_secret_access_key :: string
  aws_host :: string
  aws_region :: string
  service :: string
  aws_token :: "string option"

record credentials =
  access_key :: string
  secret_key :: string
  token :: "string option"

text \<open>
  \<^verbatim>\<open>re.match(r"[a-z0-9]+\.execute-api\.(.+)\.amazonaws\.com", s)\<close> and its group 1. The
  pattern is matched at the start of \<open>s\<close>; what follows the match is not looked at. The
  character class is \<open>lower_or_digit\<close>, and \<^verbatim>\<open>.\<close> matches any character but a newline.
\<close>

definition lower_or_digit :: "char \<Rightarrow> bool" where
  "lower_or_digit c \<longleftrightarrow>
     (let n = of_char c :: nat in 97 \<le> n \<and> n \<le> 122 \<or> 48 \<le> n \<and> n \<le> 57)"

definition not_newline :: "char \<Rightarrow> bool" where
  "not_newline c \<longleftrightarrow> c \<noteq> CHR 0x0A"

text \<open>
  A greedy \<^verbatim>\<open>x+\<close> takes the longest run of matching characters and gives characters back
  one at a time when the rest of the pattern fails: the lengths it tries, in that order.
\<close>

definition greedy_plus :: "(char \<Rightarrow> bool) \<Rightarrow> string \<Rightarrow> nat list" where
  "greedy_plus p s = rev [1 ..< Suc (length (takeWhile p s))]"

text \<open>Backtracking: the first alternative for which the rest of the pattern matches.\<close>

fun first_match :: "('a \<Rightarrow> 'b option) \<Rightarrow> 'a list \<Rightarrow> 'b option" where
  "first_match f [] = None"
| "first_match f (x # xs) = (case f x of Some y \<Rightarrow> Some y | None \<Rightarrow> first_match f xs)"

text \<open>\<^verbatim>\<open>(.+)\.amazonaws\.com\<close> at the start of \<open>s\<close>, giving the group.\<close>

definition match_region :: "string \<Rightarrow> string option" where
  "match_region s =
     first_match
       (\<lambda>m. if prefix ''.amazonaws.com'' (drop m s) then Some (take m s) else None)
       (greedy_plus not_newline s)"

definition re_match :: "string \<Rightarrow> string option" where
  "re_match s =
     first_match
       (\<lambda>n. if prefix ''.execute-api.'' (drop n s) then match_region (drop (n + 13) s) else None)
       (greedy_plus lower_or_digit s)"

text \<open>
  \<^verbatim>\<open>get_aws_auth\<close>. \<open>urlparse_netloc\<close> is \<^verbatim>\<open>urlparse(url).netloc\<close> of the library, which may
  raise, and \<open>get_credentials\<close> the outcome of the credential resolver. A failed match is
  \<^verbatim>\<open>None\<close>, and \<^verbatim>\<open>None.group(1)\<close> raises \<^verbatim>\<open>AttributeError\<close> before the credentials are
  asked for.
\<close>

definition get_aws_auth ::
  "(string \<Rightarrow> error + string) \<Rightarrow> error + credentials \<Rightarrow> string \<Rightarrow> error + aws_requests_auth" where
  "get_aws_auth urlparse_netloc get_credentials url =
     (case urlparse_netloc url of
        Inl e \<Rightarrow> Inl e
      | Inr api_gateway_netloc \<Rightarrow>
          (case re_match api_gateway_netloc of
             None \<Rightarrow> Inl AttributeError
           | Some api_gateway_region \<Rightarrow>
               (case get_credentials of
                  Inl e \<Rightarrow> Inl e
                | Inr c \<Rightarrow>
                    Inr \<lparr>aws_access_key = access_key c,
                         aws_secret_access_key = secret_key c,
                         aws_host = api_gateway_netloc,
                         aws_region = api_gateway_region,
                         service = ''execute-api'',
                         aws_token = token c\<rparr>)))"

text \<open>
  The shape \<^verbatim>\<open><id>.execute-api.<region>.amazonaws.com\<close> of an API Gateway host, with the
  identifier and the region it is made of; a host of exactly that shape; and a host that
  the pattern matches, that is one that starts with a host of that shape.
\<close>

definition api_gateway_host :: "string \<Rightarrow> string \<Rightarrow> string \<Rightarrow> bool" where
  "api_gateway_host host ident region \<longleftrightarrow>
     host = ident @ ''.execute-api.'' @ region @ ''.amazonaws.com'' \<and>
     ident \<noteq> [] \<and> list_all lower_or_digit ident \<and>
     region \<noteq> [] \<and> list_all not_newline region"

definition is_api_gateway_host :: "string \<Rightarrow> bool" where
  "is_api_gateway_host host \<longleftrightarrow> (\<exists>ident region. api_gateway_host host ident region)"


text \<open>
  Modelled from the library's documentation: for a URL \<^verbatim>\<open>scheme://netloc/path?query#fragment\<close>
  the network location is what stands between \<^verbatim>\<open>//\<close> and the next \<^verbatim>\<open>/\<close>, \<^verbatim>\<open>?\<close> or \<^verbatim>\<open>#\<close>.
  It serves as the \<open>urlparse_netloc\<close> of the examples.
\<close>

definition url_netloc :: "string \<Rightarrow> error + string" where
  "url_netloc url =
     (let scheme = takeWhile (\<lambda>c. c \<noteq> CHR '':'') url;
          rest = (if scheme \<noteq> [] \<and> length scheme < length url then drop (length scheme + 1) url
                  else url)
      in if take 2 rest = ''//''
         then Inr (takeWhile (\<lambda>c. c \<notin> set ''/?#'') (drop 2 rest))
         else Inr [])"

definition example_credentials :: credentials where
  "example_credentials = \<lparr>access_key = ''AKIDEXAMPLE'', secret_key = ''secret'', token = None\<rparr>"

section \<open>Fixture loader\<close>

text \<open>
  \<^verbatim>\<open>str.strip()\<close> removes leading and trailing whitespace: the characters for which
  \<^verbatim>\<open>str.isspace\<close> holds, here those below 256.
\<close>

definition isspace :: "char \<Rightarrow> bool" where
  "isspace c \<longleftrightarrow>
     (let n = of_char c :: nat
      in 9 \<le> n \<and> n \<le> 13 \<or> 28 \<le> n \<and> n \<le> 32 \<or> n = 133 \<or> n = 160)"

definition strip :: "string \<Rightarrow> string" where
  "strip s = rev (dropWhile isspace (rev (dropWhile isspace s)))"

text \<open>
  A file opened in text mode is read with universal newlines: \<^verbatim>\<open>\r\n\<close> and a lone \<^verbatim>\<open>\r\<close>
  are both returned as \<^verbatim>\<open>\n\<close>.
\<close>

fun universal_newlines :: "unicode \<Rightarrow> unicode" where
  "universal_newlines [] = []"
| "universal_newlines [c] = (if c = 13 then [10] else [c])"
| "universal_newlines (c # d # cs) =
     (if c = 13 \<and> d = 10 then 10 # universal_newlines cs
      else if c = 13 then 10 # universal_newlines (d # cs)
      else c # universal_newlines (d # cs))"

text \<open>
  \<^verbatim>\<open>read_xml_file_contents\<close>. \<open>files\<close> gives the bytes of the file at a path, or the error
  that opening or reading it raises; \<open>locale_decode\<close> is the decoding of the locale's
  encoding, which text mode applies to the bytes. The file system is only read.
\<close>

definition read_xml_file_contents ::
  "(string \<Rightarrow> error + bytes) \<Rightarrow> (bytes \<Rightarrow> error + unicode) \<Rightarrow> string \<Rightarrow> error + bytes" where
  "read_xml_file_contents files locale_decode filename =
     (case files (''./spekev2_requests/'' @ strip filename) of
        Inl e \<Rightarrow> Inl e
      | Inr raw \<Rightarrow>
          (case locale_decode raw of
             Inl e \<Rightarrow> Inl e
           | Inr f_read \<Rightarrow> utf8_encode (universal_newlines f_read)))"

text \<open>Code points that are Unicode scalar values: what a text decoded from UTF-8 holds.\<close>

definition scalar_value :: "nat \<Rightarrow> bool" where
  "scalar_value cp \<longleftrightarrow> cp < 1114112 \<and> \<not> (55296 \<le> cp \<and> cp < 57344)"

text \<open>
  A fixtures directory with a request, the same request with a Windows line ending, and an
  empty file.
\<close>

definition example_files :: "string \<Rightarrow> error + bytes" where
  "example_files path =
     (if path = ''./spekev2_requests/request.xml'' then Inr ''<cpix:CPIX/>''
      else if path = ''./spekev2_requests/crlf.xml'' then Inr (''<cpix:CPIX/>'' @ [CHR 0x0D, CHR 0x0A])
      else if path = ''./spekev2_requests/empty.xml'' then Inr []
      else Inl OSError)"

section \<open>The tag counter: lemmas\<close>

lemma counter_update_keys:
  "map fst (counter_update k c) = (if k \<in> fst ` set c then map fst c else map fst c @ [k])"
  by (induction c) (force+)

lemma counter_update_distinct:
  "distinct (map fst c) \<Longrightarrow> distinct (map fst (counter_update k c))"
  by (simp add: counter_update_keys)

lemma counter_update_lookup:
  "map_of (counter_update k c) k' =
     (if k' = k then Some (case map_of c k of None \<Rightarrow> 1 | Some n \<Rightarrow> n + 1) else map_of c k')"
  by (induction c) (auto)

lemma foldl_counter_distinct:
  "distinct (map fst c) \<Longrightarrow> distinct (map fst (foldl (\<lambda>c k. counter_update k c) c xs))"
  by (induction xs arbitrary: c) (simp_all add: counter_update_distinct)

lemma foldl_counter_lookup:
  "map_of (foldl (\<lambda>c k. counter_update k c) c xs) k =
     (if k \<in> set xs then Some (count_of (map_of c) k + count_list xs k) else map_of c k)"
proof (induction xs arbitrary: c)
  case Nil
  show ?case by simp
next
  case (Cons x xs)
  show ?case
    by (simp add: Cons.IH counter_update_lookup count_of_def split: option.splits)
qed

lemma Counter_distinct: "distinct (dict_keys (Counter xs))"
  by (simp add: Counter_def dict_keys_def foldl_counter_distinct)

lemma Counter_lookup:
  "map_of (Counter xs) k = (if k \<in> set xs then Some (count_list xs k) else None)"
  by (simp add: Counter_def foldl_counter_lookup count_of_def)

lemma dict_foldl:
  "distinct (map fst kvs) \<Longrightarrow> foldl (\<lambda>m (k, v). m(k \<mapsto> v)) m kvs = m ++ map_of kvs"
proof (induction kvs arbitrary: m)
  case Nil
  show ?case by simp
next
  case (Cons kv kvs)
  obtain k v where kv: "kv = (k, v)" by (cases kv)
  from Cons.prems kv have none: "map_of kvs k = None" and d: "distinct (map fst kvs)"
    by (simp_all add: map_of_eq_None_iff)
  have "foldl (\<lambda>m (k, v). m(k \<mapsto> v)) m (kv # kvs) =
        foldl (\<lambda>m (k, v). m(k \<mapsto> v)) (m(k \<mapsto> v)) kvs"
    by (simp add: kv)
  also have "\<dots> = m(k \<mapsto> v) ++ map_of kvs"
    by (rule Cons.IH [OF d])
  also have "\<dots> = m ++ map_of (kv # kvs)"
    using none by (auto simp: kv fun_eq_iff map_add_def split: option.splits)
  finally show ?case .
qed

lemma dict_distinct: "distinct (map fst kvs) \<Longrightarrow> dict kvs = map_of kvs"
  by (simp add: dict_def dict_foldl)

lemma dict_Counter:
  "dict (zip (dict_keys (Counter xs)) (dict_values (Counter xs))) k =
     (if k \<in> set xs then Some (count_list xs k) else None)"
proof -
  have "zip (dict_keys (Counter xs)) (dict_values (Counter xs)) = Counter xs"
    by (simp add: dict_keys_def dict_values_def zip_map_fst_snd)
  moreover have "distinct (map fst (Counter xs))"
    using Counter_distinct [of xs] by (simp add: dict_keys_def)
  ultimately show ?thesis
    by (simp add: dict_distinct Counter_lookup)
qed

lemma item_tag_element: "item_tag i = tag (item_element i)"
  by (simp add: item_tag_def item_element_def split: parse_item.splits)

lemma reports_tags:
  "reports items root \<Longrightarrow> mset (map item_tag items) = mset (tags root)"
proof -
  assume "reports items root"
  then have "image_mset tag (mset (map item_element items)) = image_mset tag (mset (elements root))"
    by (simp only: reports_def)
  then show ?thesis
    by (simp add: tags_def item_tag_element [abs_def] multiset.map_comp comp_def)
qed

lemma count_list_mset: "mset xs = mset ys \<Longrightarrow> count_list xs k = count_list ys k"
  by (metis count_mset)

lemma count_tags_document:
  assumes "document iterparse xml_content root"
  shows "\<exists>m. count_tags iterparse xml_content = Inr m \<and>
           (\<forall>k. m k = (if k \<in> set (tags root) then Some (count_list (tags root) k) else None))"
proof -
  from assms obtain items where it: "iterparse xml_content = Inr items" and r: "reports items root"
    by (auto simp: document_def)
  have m: "mset (map item_tag items) = mset (tags root)" by (rule reports_tags [OF r])
  have s: "set (map item_tag items) = set (tags root)" by (rule mset_eq_setD [OF m])
  have c: "count_list (map item_tag items) k = count_list (tags root) k" for k
    by (rule count_list_mset [OF m])
  show ?thesis
    using s by (simp add: count_tags_def it Let_def dict_Counter c del: set_map)
qed

lemma reports_end_events: "reports (end_events root) root"
proof -
  have "mset (map item_element (end_events root)) = mset (elements root)"
  proof (induction root)
    case (Element t cs)
    have "(\<Sum>c\<leftarrow>cs. mset (map item_element (end_events c))) = (\<Sum>c\<leftarrow>cs. mset (elements c))"
      using Element.IH by (intro arg_cong [where f = sum_list] map_cong) auto
    moreover have "item_element (Pair ''end'' (Element t cs)) = Element t cs"
      by (simp add: item_element_def)
    ultimately show ?case
      by (simp add: mset_concat map_concat comp_def)
  qed
  then show ?thesis by (simp add: reports_def)
qed

lemma tags_Element: "mset (tags (Element t cs)) = {#t#} + (\<Sum>c\<leftarrow>cs. mset (tags c))"
  by (simp add: tags_def mset_concat map_concat comp_def)

lemma sibling_permuted_tags: "sibling_permuted a b \<Longrightarrow> mset (tags a) = mset (tags b)"
proof (induction rule: sibling_permuted.induct)
  case (1 cs ds cs' t)
  from "1.IH" have "(\<Sum>c\<leftarrow>cs. mset (tags c)) = (\<Sum>c\<leftarrow>ds. mset (tags c))"
    by (induction rule: list_all2_induct) auto
  also have "\<dots> = (\<Sum>c\<in>#mset ds. mset (tags c))"
    by (simp add: sum_mset_sum_list [symmetric])
  also have "\<dots> = (\<Sum>c\<in>#mset cs'. mset (tags c))"
    by (simp only: "1.hyps")
  also have "\<dots> = (\<Sum>c\<leftarrow>cs'. mset (tags c))"
    by (simp add: sum_mset_sum_list [symmetric])
  finally show ?case by (simp add: tags_Element)
qed

text \<open>
  C6. \<^verbatim>\<open>count_tags\<close> does not depend on the order of sibling elements: two well-formed
  documents that differ only by rearranging siblings, at any depth, get the same
  frequency table.
\<close>

theorem count_tags_order_independent:
  assumes "document iterparse xml_content root"
    and "document iterparse xml_content' root'"
    and "sibling_permuted root root'"
  shows "count_tags iterparse xml_content = count_tags iterparse xml_content'"
proof -
  from count_tags_document [OF assms(1)] obtain m where
    m: "count_tags iterparse xml_content = Inr m"
       "\<And>k. m k = (if k \<in> set (tags root) then Some (count_list (tags root) k) else None)"
    by blast
  from count_tags_document [OF assms(2)] obtain m' where
    m': "count_tags iterparse xml_content' = Inr m'"
       "\<And>k. m' k = (if k \<in> set (tags root') then Some (count_list (tags root') k) else None)"
    by blast
  have e: "mset (tags root) = mset (tags root')" by (rule sibling_permuted_tags [OF assms(3)])
  have "set (tags root) = set (tags root')" by (rule mset_eq_setD [OF e])
  moreover have "count_list (tags root) k = count_list (tags root') k" for k
    by (rule count_list_mset [OF e])
  ultimately have "m = m'" by (simp add: fun_eq_iff m(2) m'(2))
  with m(1) m'(1) show ?thesis by simp
qed

text \<open>
  C10. For a well-formed document the keys of the table \<^verbatim>\<open>count_tags\<close> returns are exactly
  the tag names occurring in the document, every value is positive, and the values add up
  to the number of elements of the document.
\<close>

theorem count_tags_invariant:
  assumes "document iterparse xml_content root"
  shows "\<exists>m. count_tags iterparse xml_content = Inr m \<and>
           dom m = set (tags root) \<and>
           (\<forall>k\<in>dom m. 0 < count_of m k) \<and>
           (\<Sum>k\<in>dom m. count_of m k) = length (elements root)"
proof -
  from count_tags_document [OF assms] obtain m where
    m: "count_tags iterparse xml_content = Inr m"
       "\<And>k. m k = (if k \<in> set (tags root) then Some (count_list (tags root) k) else None)"
    by blast
  have d: "dom m = set (tags root)"
    by (auto simp: dom_def m(2))
  have c: "count_of m k = count_list (tags root) k" for k
    by (simp add: count_of_def m(2))
  have p: "\<forall>k\<in>dom m. 0 < count_of m k"
    using count_list_0_iff [of "tags root"] by (simp add: d c del: set_map) (metis gr0I)
  have "(\<Sum>k\<in>dom m. count_of m k) = (\<Sum>k\<in>set (tags root). count_list (tags root) k)"
    by (simp only: d c)
  also have "\<dots> = length (tags root)"
    by (rule sum_count_set) simp_all
  finally have "(\<Sum>k\<in>dom m. count_of m k) = length (elements root)"
    by (simp add: tags_def)
  with m(1) d p show ?thesis by blast
qed


lemma count_list_concat: "count_list (concat xss) k = (\<Sum>xs\<leftarrow>xss. count_list xs k)"
  by (induction xss) simp_all

lemma count_list_tags:
  "count_list (tags (Element t cs)) k = (if k = t then 1 else 0) + (\<Sum>c\<leftarrow>cs. count_list (tags c) k)"
  by (simp add: tags_def map_concat count_list_concat comp_def)

lemma count_tags_count:
  assumes "document iterparse xml_content root"
  shows "\<exists>m. count_tags iterparse xml_content = Inr m \<and>
           (\<forall>k. count_of m k = count_list (tags root) k)"
proof -
  from count_tags_document [OF assms] obtain m where
    m: "count_tags iterparse xml_content = Inr m"
       "\<And>k. m k = (if k \<in> set (tags root) then Some (count_list (tags root) k) else None)"
    by blast
  have "count_of m k = count_list (tags root) k" for k
    by (simp add: count_of_def m(2))
  with m(1) show ?thesis by blast
qed

lemma count_tags_subtrees:
  assumes "list_all2 (document iterparse) subtree_contents cs"
  shows "\<exists>ms. list_all2 (\<lambda>c mc. count_tags iterparse c = Inr mc) subtree_contents ms \<and>
           (\<forall>k. (\<Sum>mc\<leftarrow>ms. count_of mc k) = (\<Sum>c\<leftarrow>cs. count_list (tags c) k))"
  using assms
proof (induction rule: list_all2_induct)
  case Nil
  show ?case by simp
next
  case (Cons d ds c cs)
  from count_tags_count [OF Cons.hyps(1)] obtain m where
    m: "count_tags iterparse d = Inr m" "\<And>k. count_of m k = count_list (tags c) k"
    by blast
  from Cons.IH obtain ms where
    ms: "list_all2 (\<lambda>c mc. count_tags iterparse c = Inr mc) ds ms"
        "\<And>k. (\<Sum>mc\<leftarrow>ms. count_of mc k) = (\<Sum>c\<leftarrow>cs. count_list (tags c) k)"
    by blast
  have "list_all2 (\<lambda>c mc. count_tags iterparse c = Inr mc) (d # ds) (m # ms)"
    using m(1) ms(1) by simp
  moreover have "\<forall>k. (\<Sum>mc\<leftarrow>m # ms. count_of mc k) = (\<Sum>c\<leftarrow>c # cs. count_list (tags c) k)"
    by (simp add: m(2) ms(2))
  ultimately show ?case by blast
qed

text \<open>
  C7. \<^verbatim>\<open>count_tags\<close> is additive: the count of each tag in a document is the sum of its
  counts in the top-level subtrees, each counted as a document of its own, plus one when
  the tag is the root's.
\<close>

theorem count_tags_additive:
  assumes "document iterparse xml_content (Element t cs)"
    and "list_all2 (document iterparse) subtree_contents cs"
  shows "\<exists>m ms. count_tags iterparse xml_content = Inr m \<and>
           list_all2 (\<lambda>c mc. count_tags iterparse c = Inr mc) subtree_contents ms \<and>
           (\<forall>k. count_of m k = (if k = t then 1 else 0) + (\<Sum>mc\<leftarrow>ms. count_of mc k))"
proof -
  from count_tags_count [OF assms(1)] obtain m where
    m: "count_tags iterparse xml_content = Inr m"
       "\<And>k. count_of m k = count_list (tags (Element t cs)) k"
    by blast
  from count_tags_subtrees [OF assms(2)] obtain ms where
    ms: "list_all2 (\<lambda>c mc. count_tags iterparse c = Inr mc) subtree_contents ms"
        "\<And>k. (\<Sum>mc\<leftarrow>ms. count_of mc k) = (\<Sum>c\<leftarrow>cs. count_list (tags c) k)"
    by blast
  have "\<forall>k. count_of m k = (if k = t then 1 else 0) + (\<Sum>mc\<leftarrow>ms. count_of mc k)"
    by (simp only: m(2) ms(2) count_list_tags) simp
  with m(1) ms(1) show ?thesis by blast
qed

lemma example_documents:
  "document example_iterparse ''<a><b/><c><b/></c></a>'' example_doc"
  "document example_iterparse ''<a><c><b/></c><b/></a>'' example_doc_swapped"
  "document example_iterparse ''<b/>'' (Element ''b'' [])"
  "document example_iterparse ''<c><b/></c>'' (Element ''c'' [Element ''b'' []])"
  by (simp_all add: document_def example_iterparse_def reports_end_events del: end_events.simps)

lemma sibling_permuted_refl: "sibling_permuted a a"
proof (induction a)
  case (Element t cs)
  then have "list_all2 sibling_permuted cs cs"
    by (simp add: list_all2_same)
  then show ?case
    by (rule sibling_permuted.intros) simp
qed

lemma example_doc_permuted: "sibling_permuted example_doc example_doc_swapped"
  unfolding example_doc_def example_doc_swapped_def
  by (rule sibling_permuted.intros [where ds = "[Element ''b'' [], Element ''c'' [Element ''b'' []]]"])
     (simp_all add: sibling_permuted_refl)

theorem count_tags_order_independent_witness:
  "document example_iterparse ''<a><b/><c><b/></c></a>'' example_doc \<and>
   document example_iterparse ''<a><c><b/></c><b/></a>'' example_doc_swapped \<and>
   sibling_permuted example_doc example_doc_swapped \<and>
   count_tags example_iterparse ''<a><b/><c><b/></c></a>'' =
   count_tags example_iterparse ''<a><c><b/></c><b/></a>''"
  by (intro conjI example_documents(1) example_documents(2) example_doc_permuted
      count_tags_order_independent [OF example_documents(1) example_documents(2) example_doc_permuted])

theorem count_tags_invariant_witness:
  "document example_iterparse ''<a><b/><c><b/></c></a>'' example_doc \<and>
   (\<exists>m. count_tags example_iterparse ''<a><b/><c><b/></c></a>'' = Inr m \<and>
        dom m = {''a'', ''b'', ''c''} \<and>
        (\<forall>k\<in>dom m. 0 < count_of m k) \<and>
        (\<Sum>k\<in>dom m. count_of m k) = 4)"
proof -
  have t: "set (tags example_doc) = {''a'', ''b'', ''c''}"
    by (simp add: tags_def example_doc_def insert_commute)
  have l: "length (elements example_doc) = 4"
    by (simp add: example_doc_def)
  show ?thesis
    using count_tags_invariant [OF example_documents(1)] example_documents(1)
    unfolding t l by blast
qed

theorem count_tags_additive_witness:
  "document example_iterparse ''<a><b/><c><b/></c></a>''
     (Element ''a'' [Element ''b'' [], Element ''c'' [Element ''b'' []]]) \<and>
   list_all2 (document example_iterparse) [''<b/>'', ''<c><b/></c>'']
     [Element ''b'' [], Element ''c'' [Element ''b'' []]] \<and>
   (\<exists>m ms. count_tags example_iterparse ''<a><b/><c><b/></c></a>'' = Inr m \<and>
        list_all2 (\<lambda>c mc. count_tags example_iterparse c = Inr mc) [''<b/>'', ''<c><b/></c>''] ms \<and>
        (\<forall>k. count_of m k = (if k = ''a'' then 1 else 0) + (\<Sum>mc\<leftarrow>ms. count_of mc k)))"
proof -
  have d: "document example_iterparse ''<a><b/><c><b/></c></a>''
             (Element ''a'' [Element ''b'' [], Element ''c'' [Element ''b'' []]])"
    using example_documents(1) by (simp only: example_doc_def)
  have s: "list_all2 (document example_iterparse) [''<b/>'', ''<c><b/></c>'']
             [Element ''b'' [], Element ''c'' [Element ''b'' []]]"
    by (intro list.rel_intros example_documents(3) example_documents(4))
  show ?thesis
    by (intro conjI d s count_tags_additive [OF d s])
qed

text \<open>
  C8. \<^verbatim>\<open>count_child_element_tags_for_element\<close> returns the frequency table of the tags of
  the immediate children of the element: a tag is a key exactly when a child carries it,
  and its value is the number of such children. Neither the element's own tag nor the tags
  of deeper descendants contribute.
\<close>

theorem count_child_element_tags:
  "count_child_element_tags_for_element (Element t cs) k =
     (if k \<in> tag ` set cs then Some (count_list (map tag cs) k) else None)"
  by (simp add: count_child_element_tags_for_element_def Let_def dict_Counter)

section \<open>The HLS tag decoder: lemmas\<close>

lemma emit_Inr [simp]: "emit b (Inr bs) = Inr (b # bs)"
  by (simp add: emit_def)

lemma emit_Inl [simp]: "emit b (Inl e) = Inl e"
  by (simp add: emit_def)

lemma split3: "(cp::nat) div 4096 * 4096 + cp div 64 mod 64 * 64 + cp mod 64 = cp"
proof -
  have "cp div 64 div 64 = cp div 4096" by (simp add: div_mult2_eq [symmetric])
  moreover have "cp div 64 = cp div 64 div 64 * 64 + cp div 64 mod 64" by simp
  ultimately have "cp = (cp div 4096 * 64 + cp div 64 mod 64) * 64 + cp mod 64"
    by (metis div_mult_mod_eq)
  then show ?thesis by (simp add: algebra_simps)
qed

lemma split4:
  "(cp::nat) div 262144 * 262144 + cp div 4096 mod 64 * 4096 + cp div 64 mod 64 * 64 + cp mod 64 = cp"
proof -
  define q where "q = cp div 64"
  have a: "q div 4096 = cp div 262144" by (simp add: q_def div_mult2_eq [symmetric])
  have b: "q div 64 = cp div 4096" by (simp add: q_def div_mult2_eq [symmetric])
  have "q div 4096 * 4096 + q div 64 mod 64 * 64 + q mod 64 = q" by (rule split3)
  then have "q = cp div 262144 * 4096 + cp div 4096 mod 64 * 64 + cp div 64 mod 64"
    by (simp add: a b) (simp add: q_def)
  moreover have "cp = q * 64 + cp mod 64" by (simp add: q_def)
  ultimately have "cp = (cp div 262144 * 4096 + cp div 4096 mod 64 * 64 + cp div 64 mod 64) * 64
      + cp mod 64" by simp
  then show ?thesis by (simp add: algebra_simps)
qed

lemma utf8_decode_encode_code:
  assumes "utf8_encode_code cp = Inr codes"
  shows "utf8_decode_codes (codes @ r) = emit cp (utf8_decode_codes r)"
proof -
  consider (a) "cp < 128" | (b) "128 \<le> cp" "cp < 2048"
    | (c) "2048 \<le> cp" "cp < 65536" "\<not> (55296 \<le> cp \<and> cp < 57344)"
    | (d) "65536 \<le> cp" "cp < 1114112"
    | (e) "55296 \<le> cp \<and> cp < 57344 \<or> 1114112 \<le> cp"
    by linarith
  then show ?thesis
  proof cases
    case a
    with assms show ?thesis by (auto simp: utf8_encode_code_def)
  next
    case b
    then have c: "codes = [192 + cp div 64, 128 + cp mod 64]"
      using assms by (auto simp: utf8_encode_code_def)
    have h1: "cp div 64 < 32" using b by simp
    have h2: "cp div 64 * 64 + cp mod 64 = cp" by simp
    show ?thesis
      using b by (simp add: c continuation_def h1 h2)
  next
    case c
    then have cs: "codes = [224 + cp div 4096, 128 + cp div 64 mod 64, 128 + cp mod 64]"
      using assms by (auto simp: utf8_encode_code_def)
    have h1: "cp div 4096 < 16" using c by simp
    have h2: "cp div 4096 * 4096 + cp div 64 mod 64 * 64 + cp mod 64 = cp" by (rule split3)
    show ?thesis
      using c by (simp add: cs continuation_def h1 h2)
  next
    case d
    then have cs: "codes = [240 + cp div 262144, 128 + cp div 4096 mod 64,
        128 + cp div 64 mod 64, 128 + cp mod 64]"
      using assms by (auto simp: utf8_encode_code_def)
    have h1: "cp div 262144 < 8" using d by simp
    have h2: "cp div 262144 * 262144 + cp div 4096 mod 64 * 4096 + cp div 64 mod 64 * 64
        + cp mod 64 = cp" by (rule split4)
    show ?thesis
      using d by (simp add: cs continuation_def h1 h2)
  next
    case e
    with assms show ?thesis by (auto simp: utf8_encode_code_def)
  qed
qed

lemma utf8_encode_code_byte:
  "utf8_encode_code cp = Inr codes \<Longrightarrow> c \<in> set codes \<Longrightarrow> c < 256"
  by (auto simp: utf8_encode_code_def split: if_splits)

lemma utf8_decode_encode: "utf8_encode t = Inr bs \<Longrightarrow> utf8_decode bs = Inr t"
proof (induction t arbitrary: bs)
  case Nil
  then show ?case by (simp add: utf8_decode_def)
next
  case (Cons cp t)
  from Cons.prems obtain codes r where
    c: "utf8_encode_code cp = Inr codes" and r: "utf8_encode t = Inr r"
    and bs: "bs = map char_of codes @ r"
    by (auto split: sum.splits)
  have "map of_char (map char_of codes) = codes"
    using utf8_encode_code_byte [OF c] by (simp add: map_idI)
  then have "utf8_decode bs = utf8_decode_codes (codes @ map of_char r)"
    by (simp add: utf8_decode_def bs)
  also have "\<dots> = emit cp (utf8_decode r)"
    by (simp add: utf8_decode_encode_code [OF c] utf8_decode_def)
  finally show ?case by (simp add: Cons.IH [OF r])
qed

lemma table_a2b_b2a: "n < 64 \<Longrightarrow> table_a2b_base64 (table_b2a_base64 n) = Some n"
  by (auto simp: table_a2b_base64_def table_b2a_base64_def Let_def)

lemma table_b2a_not_pad: "n < 64 \<Longrightarrow> table_b2a_base64 n \<noteq> CHR ''=''"
proof
  assume n: "n < 64" and "table_b2a_base64 n = CHR ''=''"
  then have "of_char (table_b2a_base64 n) = (61::nat)" by simp
  with n show False
    by (auto simp: table_b2a_base64_def split: if_splits)
qed

lemma a2b_data:
  "n < 64 \<Longrightarrow> a2b_base64 q l p (table_b2a_base64 n # r) =
     (if q = 0 then a2b_base64 1 n 0 r
      else if q = 1 then emit (char_of (l * 4 + n div 16)) (a2b_base64 2 (n mod 16) 0 r)
      else if q = 2 then emit (char_of (l * 16 + n div 4)) (a2b_base64 3 (n mod 4) 0 r)
      else emit (char_of (l * 64 + n)) (a2b_base64 0 0 0 r))"
  by (simp add: table_a2b_b2a table_b2a_not_pad)

lemma div_mult_add: "(y::nat) < m \<Longrightarrow> (x * m + y) div m = x"
  by simp

lemma mod_mult_add: "(y::nat) < m \<Longrightarrow> (x * m + y) mod m = y"
  by simp

lemma sextets:
  fixes a b c :: nat
  assumes "a < 256" "b < 256" "c < 256"
  shows "a div 4 * 4 + (a mod 4 * 16 + b div 16) div 16 = a"
    and "(a mod 4 * 16 + b div 16) mod 16 * 16 + (b mod 16 * 4 + c div 64) div 4 = b"
    and "(b mod 16 * 4 + c div 64) mod 4 * 64 + c mod 64 = c"
    and "a div 4 < 64"
    and "a mod 4 * 16 + b div 16 < 64"
    and "b mod 16 * 4 + c div 64 < 64"
    and "c mod 64 < 64"
proof -
  have b16: "b div 16 < 16" and c64: "c div 64 < 4" using assms by simp_all
  have a4: "a mod 4 < 4" and b4: "b mod 16 < 16" by simp_all
  show "a div 4 * 4 + (a mod 4 * 16 + b div 16) div 16 = a"
    by (simp only: div_mult_add [OF b16]) simp
  show "(a mod 4 * 16 + b div 16) mod 16 * 16 + (b mod 16 * 4 + c div 64) div 4 = b"
    by (simp only: mod_mult_add [OF b16] div_mult_add [OF c64]) simp
  show "(b mod 16 * 4 + c div 64) mod 4 * 64 + c mod 64 = c"
    by (simp only: mod_mult_add [OF c64]) simp
  show "a div 4 < 64" using assms by simp
  show "a mod 4 * 16 + b div 16 < 64" using a4 b16 by linarith
  show "b mod 16 * 4 + c div 64 < 64" using b4 c64 by linarith
  show "c mod 64 < 64" by simp
qed

lemma a2b_quad:
  assumes "n1 < 64" "n2 < 64" "n3 < 64" "n4 < 64"
  shows "a2b_base64 0 0 0
           (table_b2a_base64 n1 # table_b2a_base64 n2 # table_b2a_base64 n3 #
            table_b2a_base64 n4 # r) =
         emit (char_of (n1 * 4 + n2 div 16))
           (emit (char_of (n2 mod 16 * 16 + n3 div 4))
              (emit (char_of (n3 mod 4 * 64 + n4)) (a2b_base64 0 0 0 r)))"
  by (simp add: a2b_data assms del: a2b_base64.simps(2))

lemma a2b_pad1:
  assumes "n1 < 64" "n2 < 64" "n3 < 64"
  shows "a2b_base64 0 0 0
           [table_b2a_base64 n1, table_b2a_base64 n2, table_b2a_base64 n3, CHR ''=''] =
         Inr [char_of (n1 * 4 + n2 div 16), char_of (n2 mod 16 * 16 + n3 div 4)]"
  by (simp add: a2b_data assms del: a2b_base64.simps(2)) simp

lemma a2b_pad2:
  assumes "n1 < 64" "n2 < 64"
  shows "a2b_base64 0 0 0 [table_b2a_base64 n1, table_b2a_base64 n2, CHR ''='', CHR ''=''] =
         Inr [char_of (n1 * 4 + n2 div 16)]"
  by (simp add: a2b_data assms del: a2b_base64.simps(2)) simp

lemma b64_roundtrip_codes:
  "\<forall>a\<in>set ns. a < 256 \<Longrightarrow> a2b_base64 0 0 0 (b2a_base64 ns) = Inr (map char_of ns)"
proof (induction ns rule: b2a_base64.induct)
  case 1
  show ?case by simp
next
  case (2 a)
  then have a: "a < 256" by simp
  have z: "(0::nat) < 256" by simp
  note s = sextets [OF a z z]
  have "a2b_base64 0 0 0 (b2a_base64 [a]) =
        Inr [char_of (a div 4 * 4 + (a mod 4 * 16 + 0 div 16) div 16)]"
    using a2b_pad2 [OF s(4) s(5)] by simp
  also have "\<dots> = Inr [char_of a]" by (simp only: s(1))
  finally show ?case by simp
next
  case (3 a b)
  then have a: "a < 256" and b: "b < 256" by simp_all
  have z: "(0::nat) < 256" by simp
  note s = sextets [OF a b z]
  have "a2b_base64 0 0 0 (b2a_base64 [a, b]) =
        Inr [char_of (a div 4 * 4 + (a mod 4 * 16 + b div 16) div 16),
             char_of ((a mod 4 * 16 + b div 16) mod 16 * 16 + (b mod 16 * 4 + 0 div 64) div 4)]"
    using a2b_pad1 [OF s(4) s(5) s(6)] by simp
  also have "\<dots> = Inr [char_of a, char_of b]" by (simp only: s(1) s(2))
  finally show ?case by simp
next
  case (4 a b c bin_data)
  then have a: "a < 256" and b: "b < 256" and c: "c < 256"
    and r: "\<forall>a\<in>set bin_data. a < 256" by simp_all
  note s = sextets [OF a b c]
  have "a2b_base64 0 0 0 (b2a_base64 (a # b # c # bin_data)) =
        emit (char_of (a div 4 * 4 + (a mod 4 * 16 + b div 16) div 16))
          (emit (char_of ((a mod 4 * 16 + b div 16) mod 16 * 16 + (b mod 16 * 4 + c div 64) div 4))
             (emit (char_of ((b mod 16 * 4 + c div 64) mod 4 * 64 + c mod 64))
                (a2b_base64 0 0 0 (b2a_base64 bin_data))))"
    by (simp only: b2a_base64.simps append.simps a2b_quad [OF s(4) s(5) s(6) s(7)])
  also have "\<dots> = emit (char_of a) (emit (char_of b) (emit (char_of c)
      (a2b_base64 0 0 0 (b2a_base64 bin_data))))"
    by (simp only: s(1) s(2) s(3))
  finally show ?case by (simp add: "4.IH" [OF r])
qed

lemma b64decode_b64encode: "b64decode (b64encode bs) = Inr bs"
  by (simp add: b64decode_def b64encode_def b64_roundtrip_codes comp_def)

lemma str_replace_Nil: "old \<noteq> [] \<Longrightarrow> str_replace old new [] = []"
  by (simp add: str_replace.simps)

lemma str_replace_match:
  "old \<noteq> [] \<Longrightarrow> prefix old s \<Longrightarrow>
     str_replace old new s = new @ str_replace old new (drop (length old) s)"
  by (subst str_replace.simps) auto

lemma str_replace_skip:
  "old \<noteq> [] \<Longrightarrow> \<not> prefix old (c # s) \<Longrightarrow>
     str_replace old new (c # s) = c # str_replace old new s"
  by (subst str_replace.simps) simp

lemma str_replace_absent:
  "old \<noteq> [] \<Longrightarrow> \<not> sublist old u \<Longrightarrow> str_replace old new u = u"
proof (induction u)
  case Nil
  then show ?case by (simp add: str_replace_Nil)
next
  case (Cons c u)
  from Cons.prems(2) have "\<not> prefix old (c # u)" and "\<not> sublist old u"
    by (simp_all add: sublist_Cons_right)
  with Cons show ?case by (simp add: str_replace_skip)
qed

lemma str_replace_first:
  assumes "old \<noteq> []" and "\<forall>i<length u. \<not> prefix old (drop i (u @ old @ v))"
  shows "str_replace old new (u @ old @ v) = u @ new @ str_replace old new v"
  using assms(2)
proof (induction u)
  case Nil
  show ?case using assms(1) by (simp add: str_replace_match)
next
  case (Cons c u)
  from Cons.prems have "\<not> prefix old (drop 0 ((c # u) @ old @ v))" by blast
  then have n: "\<not> prefix old (c # u @ old @ v)" by simp
  have "\<forall>i<length u. \<not> prefix old (drop i (u @ old @ v))"
  proof (intro allI impI)
    fix i assume "i < length u"
    then have "Suc i < length (c # u)" by simp
    with Cons.prems have "\<not> prefix old (drop (Suc i) ((c # u) @ old @ v))" by blast
    then show "\<not> prefix old (drop i (u @ old @ v))" by simp
  qed
  with Cons.IH have "str_replace old new (u @ old @ v) = u @ new @ str_replace old new v" .
  with n assms(1) show ?case by (simp add: str_replace_skip)
qed

lemma prefix_own_head:
  assumes old: "old = h # ot" and h: "h \<notin> set ot"
    and p: "prefix old (w @ old @ v)" and w: "w \<noteq> []"
  shows "prefix old w"
proof -
  from p have "prefix old w \<or> (\<exists>r. old = w @ r \<and> prefix r (old @ v))"
    by (simp only: prefix_append)
  then show ?thesis
  proof
    assume "prefix old w"
    then show ?thesis .
  next
    assume "\<exists>r. old = w @ r \<and> prefix r (old @ v)"
    then obtain r where r: "old = w @ r" and pr: "prefix r (old @ v)" by blast
    show ?thesis
    proof (cases r)
      case Nil
      with r show ?thesis by simp
    next
      case (Cons x r')
      from pr have "prefix (x # r') (h # ot @ v)" by (simp add: Cons old)
      then have x: "x = h" by simp
      from w obtain y w' where yw: "w = y # w'" by (cases w) auto
      from r have "h # ot = y # w' @ h # r'" by (simp add: old yw Cons x)
      then have "ot = w' @ h # r'" by simp
      then have "h \<in> set ot" by simp
      with h show ?thesis by contradiction
    qed
  qed
qed

lemma no_straddle:
  assumes old: "old = h # ot" and h: "h \<notin> set ot" and u: "\<not> sublist old u"
    and i: "i < length u"
  shows "\<not> prefix old (drop i (u @ old @ v))"
proof
  assume p: "prefix old (drop i (u @ old @ v))"
  have w: "drop i u \<noteq> []" using i by simp
  have "drop i (u @ old @ v) = drop i u @ old @ v" using i by simp
  with p have "prefix old (drop i u @ old @ v)" by simp
  from prefix_own_head [OF old h this w] have "prefix old (drop i u)" .
  then obtain z where z: "drop i u = old @ z" unfolding prefix_def by blast
  have "u = take i u @ drop i u" by simp
  then have "u = take i u @ old @ z" by (simp only: z)
  then have "sublist old u" unfolding sublist_def by blast
  with u show False by contradiction
qed

lemma str_replace_join:
  assumes old: "old = h # ot" and h: "h \<notin> set ot"
  shows "us \<noteq> [] \<Longrightarrow> \<forall>u\<in>set us. \<not> sublist old u \<Longrightarrow>
           str_replace old new (join old us) = join new us"
proof (induction us)
  case Nil
  then show ?case by simp
next
  case (Cons u us)
  have ne: "old \<noteq> []" using old by simp
  from Cons.prems have u: "\<not> sublist old u" and r: "\<forall>u\<in>set us. \<not> sublist old u"
    by simp_all
  note IH = Cons.IH
  show ?case
  proof (cases us)
    case Nil
    then show ?thesis using u ne by (simp add: str_replace_absent)
  next
    case (Cons v vs)
    then have "us \<noteq> []" by simp
    from IH [OF this r] have ih: "str_replace old new (join old us) = join new us" .
    have "\<forall>i<length u. \<not> prefix old (drop i (u @ old @ join old us))"
      using no_straddle [OF old h u] by blast
    from str_replace_first [OF ne this]
    have "str_replace old new (u @ old @ join old us) = u @ new @ str_replace old new (join old us)" .
    with ih show ?thesis by (simp add: Cons)
  qed
qed

lemma session_key_method_head:
  "str ''#EXT-X-SESSION-KEY:METHOD'' = 35 # str ''EXT-X-SESSION-KEY:METHOD''"
  "35 \<notin> set (str ''EXT-X-SESSION-KEY:METHOD'')"
  by (simp_all add: str_def)

text \<open>
  C2, as the code has it. \<^verbatim>\<open>parse_ext_x_session_key_contents\<close> rewrites every occurrence
  of \<^verbatim>\<open>#EXT-X-SESSION-KEY:METHOD\<close> in the decoded text, not the first one only: when the
  decoded text is made of the pieces \<open>us\<close> separated by the session-key tag, the parser
  receives the same pieces separated by \<^verbatim>\<open>#EXT-X-KEY:METHOD\<close>.
\<close>

theorem session_key_rewrite_all:
  assumes "decode_b64_bytes text_in_bytes = Inr (join (str ''#EXT-X-SESSION-KEY:METHOD'') us)"
    and "us \<noteq> []"
    and "\<forall>u\<in>set us. \<not> sublist (str ''#EXT-X-SESSION-KEY:METHOD'') u"
  shows "parse_ext_x_session_key_contents loads text_in_bytes =
         loads (join (str ''#EXT-X-KEY:METHOD'') us)"
  using str_replace_join [OF session_key_method_head assms(2) assms(3)]
  by (simp add: parse_ext_x_session_key_contents_def assms(1))

lemmas decode_simps =
  decode_b64_bytes_def b64decode_def table_a2b_base64_def utf8_decode_def str_def

lemma two_tags_decoded:
  "decode_b64_bytes
     ''I0VYVC1YLVNFU1NJT04tS0VZOk1FVEhPRD1OT05FCiNFWFQtWC1TRVNTSU9OLUtFWTpNRVRIT0Q9Tk9ORQ=='' =
   Inr (str ''#EXT-X-SESSION-KEY:METHOD=NONE'' @ 10 # str ''#EXT-X-SESSION-KEY:METHOD=NONE'')"
  by (simp add: decode_simps)

text \<open>Two session-key tags on two lines: both are rewritten.\<close>

theorem session_key_rewrite_all_witness:
  "parse_ext_x_session_key_contents Inr
     ''I0VYVC1YLVNFU1NJT04tS0VZOk1FVEhPRD1OT05FCiNFWFQtWC1TRVNTSU9OLUtFWTpNRVRIT0Q9Tk9ORQ=='' =
   Inr (str ''#EXT-X-KEY:METHOD=NONE'' @ 10 # str ''#EXT-X-KEY:METHOD=NONE'')"
proof -
  let ?us = "[[], str ''=NONE'' @ [10], str ''=NONE'']"
  have d: "decode_b64_bytes
     ''I0VYVC1YLVNFU1NJT04tS0VZOk1FVEhPRD1OT05FCiNFWFQtWC1TRVNTSU9OLUtFWTpNRVRIT0Q9Tk9ORQ=='' =
     Inr (join (str ''#EXT-X-SESSION-KEY:METHOD'') ?us)"
    by (simp add: two_tags_decoded) (simp add: str_def)
  have n: "?us \<noteq> []" by simp
  have s: "\<forall>u\<in>set ?us. \<not> sublist (str ''#EXT-X-SESSION-KEY:METHOD'') u"
    by (simp add: str_def sublist_Cons_right)
  show ?thesis
    using session_key_rewrite_all [OF d n s, of Inr] by (simp add: str_def)
qed

text \<open>
  On the same input, the text handed to the parser is not the decoded text with its first
  occurrence replaced.
\<close>

theorem first_occurrence_only_counterexample:
  "decode_b64_bytes
     ''I0VYVC1YLVNFU1NJT04tS0VZOk1FVEhPRD1OT05FCiNFWFQtWC1TRVNTSU9OLUtFWTpNRVRIT0Q9Tk9ORQ=='' =
   Inr (str ''#EXT-X-SESSION-KEY:METHOD=NONE'' @ 10 # str ''#EXT-X-SESSION-KEY:METHOD=NONE'') \<and>
   parse_ext_x_session_key_contents Inr
     ''I0VYVC1YLVNFU1NJT04tS0VZOk1FVEhPRD1OT05FCiNFWFQtWC1TRVNTSU9OLUtFWTpNRVRIT0Q9Tk9ORQ=='' \<noteq>
   Inr (replace_first (str ''#EXT-X-SESSION-KEY:METHOD'') (str ''#EXT-X-KEY:METHOD'')
     (str ''#EXT-X-SESSION-KEY:METHOD=NONE'' @ 10 # str ''#EXT-X-SESSION-KEY:METHOD=NONE''))"
proof -
  let ?us = "[[], str ''=NONE'' @ [10], str ''=NONE'']"
  have j: "str ''#EXT-X-SESSION-KEY:METHOD=NONE'' @ 10 # str ''#EXT-X-SESSION-KEY:METHOD=NONE'' =
      join (str ''#EXT-X-SESSION-KEY:METHOD'') ?us"
    by (simp add: str_def)
  have n: "?us \<noteq> []" by simp
  have s: "\<forall>u\<in>set ?us. \<not> sublist (str ''#EXT-X-SESSION-KEY:METHOD'') u"
    by (simp add: str_def sublist_Cons_right)
  have "parse_ext_x_session_key_contents Inr
     ''I0VYVC1YLVNFU1NJT04tS0VZOk1FVEhPRD1OT05FCiNFWFQtWC1TRVNTSU9OLUtFWTpNRVRIT0Q9Tk9ORQ=='' =
     Inr (join (str ''#EXT-X-KEY:METHOD'') ?us)"
    using str_replace_join [OF session_key_method_head n s]
    by (simp add: parse_ext_x_session_key_contents_def two_tags_decoded j)
  moreover have "replace_first (str ''#EXT-X-SESSION-KEY:METHOD'') (str ''#EXT-X-KEY:METHOD'')
     (str ''#EXT-X-SESSION-KEY:METHOD=NONE'' @ 10 # str ''#EXT-X-SESSION-KEY:METHOD=NONE'') \<noteq>
     join (str ''#EXT-X-KEY:METHOD'') ?us"
    by (simp add: str_def)
  ultimately show ?thesis
    using two_tags_decoded by simp
qed

lemma decode_encode_text:
  "utf8_encode t = Inr bs \<Longrightarrow> decode_b64_bytes (b64encode bs) = Inr t"
  by (simp add: decode_b64_bytes_def b64decode_b64encode utf8_decode_encode)

text \<open>
  C4. \<^verbatim>\<open>decode_b64_bytes\<close> is a left inverse of base64 encoding: applied to the standard
  base64 encoding of the UTF-8 bytes of a text \<open>T\<close>, it returns \<open>T\<close>.
\<close>

theorem decode_b64_bytes_left_inverse:
  assumes "utf8_encode T = Inr utf8_bytes"
  shows "decode_b64_bytes (b64encode utf8_bytes) = Inr T"
  using assms by (rule decode_encode_text)

text \<open>A text with code points of one, two, three and four bytes.\<close>

theorem decode_b64_bytes_left_inverse_witness:
  "utf8_encode [104, 233, 8364, 128512] =
     Inr (map char_of [104, 195, 169, 226, 130, 172, 240, 159, 152, 128 :: nat]) \<and>
   decode_b64_bytes
     (b64encode (map char_of [104, 195, 169, 226, 130, 172, 240, 159, 152, 128 :: nat])) =
     Inr [104, 233, 8364, 128512]"
proof -
  have e: "utf8_encode [104, 233, 8364, 128512] =
     Inr (map char_of [104, 195, 169, 226, 130, 172, 240, 159, 152, 128 :: nat])"
    by (simp add: utf8_encode_code_def)
  from decode_b64_bytes_left_inverse [OF e] e show ?thesis by (intro conjI)
qed

lemma a2b_base64_error: "a2b_base64 q l p s = Inl e \<Longrightarrow> e = BinasciiError"
proof (induction s arbitrary: q l p)
  case Nil
  then show ?case by (simp split: if_splits)
next
  case (Cons c s)
  then show ?case
    by (auto simp: emit_def split: if_splits option.splits sum.splits)
qed

lemma a2b_base64_filter:
  "a2b_base64 q l p (filter (\<lambda>c. in_alphabet c \<or> c = CHR ''='') s) = a2b_base64 q l p s"
  by (induction s arbitrary: q l p) (auto simp: in_alphabet_def split: option.splits)

lemma a2b_base64_count:
  "CHR ''='' \<notin> set s \<Longrightarrow> q < 4 \<Longrightarrow> (q + length (filter in_alphabet s)) mod 4 \<noteq> 0 \<Longrightarrow>
     a2b_base64 q l p s = Inl BinasciiError"
proof (induction s arbitrary: q l p)
  case Nil
  then show ?case by simp
next
  case (Cons c s)
  from Cons.prems have e: "CHR ''='' \<notin> set s" "c \<noteq> CHR ''=''" by auto
  show ?case
  proof (cases "table_a2b_base64 c")
    case None
    then have "\<not> in_alphabet c" by (simp add: in_alphabet_def)
    with Cons.prems have "(q + length (filter in_alphabet s)) mod 4 \<noteq> 0"
      by simp
    from Cons.IH [OF e(1) Cons.prems(2) this] show ?thesis using None e(2) by simp
  next
    case (Some n)
    from Some have "in_alphabet c" by (simp add: in_alphabet_def)
    with Cons.prems(3)
    have m: "(Suc q + length (filter in_alphabet s)) mod 4 \<noteq> 0" by simp
    consider "q = 0" | "q = 1" | "q = 2" | "q = 3" using Cons.prems(2) by linarith
    then show ?thesis
    proof cases
      case 1
      with m have "(1 + length (filter in_alphabet s)) mod 4 \<noteq> 0" by simp
      from Cons.IH [OF e(1) _ this] show ?thesis using 1 e(2) Some by simp
    next
      case 2
      with m have "(2 + length (filter in_alphabet s)) mod 4 \<noteq> 0" by simp
      from Cons.IH [OF e(1) _ this] show ?thesis using 2 e(2) Some by simp
    next
      case 3
      with m have "(3 + length (filter in_alphabet s)) mod 4 \<noteq> 0" by simp
      from Cons.IH [OF e(1) _ this] show ?thesis using 3 e(2) Some by simp
    next
      case 4
      with m have "(0 + length (filter in_alphabet s)) mod 4 \<noteq> 0" by simp
      from Cons.IH [OF e(1) _ this] show ?thesis using 4 e(2) Some by simp
    qed
  qed
qed

lemma emit_error: "emit b r = Inl e \<Longrightarrow> r = Inl e"
  by (cases r) simp_all

lemma utf8_decode_codes_error: "utf8_decode_codes bs = Inl e \<Longrightarrow> e = UnicodeDecodeError"
proof (induction "length bs" arbitrary: bs rule: less_induct)
  case less
  from less.prems
  have "e = UnicodeDecodeError \<or> (\<exists>r. length r < length bs \<and> utf8_decode_codes r = Inl e)"
    by (cases bs) (auto simp: Let_def split: if_splits list.splits dest!: emit_error)
  with less.hyps show ?case by blast
qed

text \<open>
  C3, as the code has it. When the lenient base64 decoding raises, or the decoded bytes
  are not valid UTF-8, \<^verbatim>\<open>decode_b64_bytes\<close> fails with that error unchanged
  (\<^verbatim>\<open>binascii.Error\<close>, respectively \<^verbatim>\<open>UnicodeDecodeError\<close>). The base64 decoding raises on
  every input without a pad whose number of alphabet bytes is not a multiple of four. Bytes
  outside the alphabet do not make the input fail: they are discarded.
\<close>

theorem decode_b64_bytes_failure:
  "(b64decode s = Inl e \<longrightarrow> decode_b64_bytes s = Inl e \<and> e = BinasciiError) \<and>
   (b64decode s = Inr raw \<and> utf8_decode raw = Inl e \<longrightarrow>
      decode_b64_bytes s = Inl e \<and> e = UnicodeDecodeError) \<and>
   (CHR ''='' \<notin> set s \<and> length (filter in_alphabet s) mod 4 \<noteq> 0 \<longrightarrow>
      decode_b64_bytes s = Inl BinasciiError) \<and>
   decode_b64_bytes s = decode_b64_bytes (filter (\<lambda>c. in_alphabet c \<or> c = CHR ''='') s)"
proof (intro conjI impI)
  assume "b64decode s = Inl e"
  then show "decode_b64_bytes s = Inl e" by (simp add: decode_b64_bytes_def)
next
  assume "b64decode s = Inl e"
  then show "e = BinasciiError" unfolding b64decode_def by (rule a2b_base64_error)
next
  assume "b64decode s = Inr raw \<and> utf8_decode raw = Inl e"
  then show "decode_b64_bytes s = Inl e" by (simp add: decode_b64_bytes_def)
next
  assume "b64decode s = Inr raw \<and> utf8_decode raw = Inl e"
  then have "utf8_decode_codes (map of_char raw) = Inl e" by (simp add: utf8_decode_def)
  then show "e = UnicodeDecodeError" by (rule utf8_decode_codes_error)
next
  assume "CHR ''='' \<notin> set s \<and> length (filter in_alphabet s) mod 4 \<noteq> 0"
  then have "a2b_base64 0 0 0 s = Inl BinasciiError"
    by (intro a2b_base64_count) simp_all
  then show "decode_b64_bytes s = Inl BinasciiError"
    by (simp add: decode_b64_bytes_def b64decode_def)
next
  show "decode_b64_bytes s = decode_b64_bytes (filter (\<lambda>c. in_alphabet c \<or> c = CHR ''='') s)"
    by (simp add: decode_b64_bytes_def b64decode_def a2b_base64_filter)
qed

text \<open>Three alphabet bytes without padding, and a base64 text of the byte \<^verbatim>\<open>0xFF\<close>.\<close>

theorem decode_b64_bytes_failure_witness:
  "b64decode ''YQQ'' = Inl BinasciiError \<and>
   CHR ''='' \<notin> set ''YQQ'' \<and> length (filter in_alphabet ''YQQ'') mod 4 \<noteq> 0 \<and>
   decode_b64_bytes ''YQQ'' = Inl BinasciiError \<and>
   b64decode ''/w=='' = Inr [char_of (255::nat)] \<and> utf8_decode [char_of (255::nat)] = Inl UnicodeDecodeError \<and>
   decode_b64_bytes ''/w=='' = Inl UnicodeDecodeError"
proof -
  have a: "b64decode ''YQQ'' = Inl BinasciiError"
    by (simp add: b64decode_def table_a2b_base64_def)
  have b: "CHR ''='' \<notin> set ''YQQ'' \<and> length (filter in_alphabet ''YQQ'') mod 4 \<noteq> 0"
    by (simp add: in_alphabet_def table_a2b_base64_def)
  have c: "b64decode ''/w=='' = Inr [char_of (255::nat)] \<and> utf8_decode [char_of (255::nat)] = Inl UnicodeDecodeError"
    by (simp add: b64decode_def table_a2b_base64_def utf8_decode_def)
  from decode_b64_bytes_failure [of "''YQQ''" BinasciiError] a b
  have "decode_b64_bytes ''YQQ'' = Inl BinasciiError" by blast
  moreover from decode_b64_bytes_failure [of "''/w==''" UnicodeDecodeError "[char_of (255::nat)]"] c
  have "decode_b64_bytes ''/w=='' = Inl UnicodeDecodeError" by blast
  ultimately show ?thesis using a b c by blast
qed

text \<open>
  \<^verbatim>\<open>Y!Q==\<close> is not well-formed base64, and \<^verbatim>\<open>decode_b64_bytes\<close> returns a value on it.
\<close>

theorem malformed_base64_accepted_counterexample:
  "\<not> valid_base64 ''Y!Q=='' \<and> decode_b64_bytes ''Y!Q=='' = Inr (str ''a'')"
  by (simp add: decode_simps)







section \<open>The signed request sender: lemmas\<close>

















lemmas re_match_eval =
  re_match_def match_region_def greedy_plus_def lower_or_digit_def not_newline_def

lemma example_netlocs:
  "url_netloc ''https://example.com/prod'' = Inr ''example.com''"
  "url_netloc ''https://abc123.execute-api.us-east-1.amazonaws.com/prod'' =
     Inr ''abc123.execute-api.us-east-1.amazonaws.com''"
  "url_netloc ''https://abc123.execute-api.us-east-1.amazonaws.com:443/prod'' =
     Inr ''abc123.execute-api.us-east-1.amazonaws.com:443''"
  by (simp_all add: url_netloc_def)


text \<open>
  The pattern is matched at the start of the host: a host followed by a port, which is not
  of the exact shape, matches too, and its region is extracted.
\<close>

lemma get_aws_auth_host_with_port:
  "url_netloc ''https://abc123.execute-api.us-east-1.amazonaws.com:443/prod'' =
     Inr ''abc123.execute-api.us-east-1.amazonaws.com:443'' \<and>
   \<not> is_api_gateway_host ''abc123.execute-api.us-east-1.amazonaws.com:443'' \<and>
   get_aws_auth url_netloc (Inr example_credentials)
     ''https://abc123.execute-api.us-east-1.amazonaws.com:443/prod'' =
     Inr \<lparr>aws_access_key = ''AKIDEXAMPLE'', aws_secret_access_key = ''secret'',
          aws_host = ''abc123.execute-api.us-east-1.amazonaws.com:443'',
          aws_region = ''us-east-1'', service = ''execute-api'', aws_token = None\<rparr>"
proof -
  have n: "\<not> is_api_gateway_host ''abc123.execute-api.us-east-1.amazonaws.com:443''"
  proof
    assume "is_api_gateway_host ''abc123.execute-api.us-east-1.amazonaws.com:443''"
    then obtain ident region where
      "''abc123.execute-api.us-east-1.amazonaws.com:443'' =
         ident @ ''.execute-api.'' @ region @ ''.amazonaws.com''"
      by (auto simp: is_api_gateway_host_def api_gateway_host_def)
    then have "last ''abc123.execute-api.us-east-1.amazonaws.com:443'' =
        last (ident @ ''.execute-api.'' @ region @ ''.amazonaws.com'')"
      by (rule arg_cong)
    then show False by simp
  qed
  have r: "re_match ''abc123.execute-api.us-east-1.amazonaws.com:443'' = Some ''us-east-1''"
    by (simp add: re_match_eval)
  have "get_aws_auth url_netloc (Inr example_credentials)
     ''https://abc123.execute-api.us-east-1.amazonaws.com:443/prod'' =
     Inr \<lparr>aws_access_key = ''AKIDEXAMPLE'', aws_secret_access_key = ''secret'',
          aws_host = ''abc123.execute-api.us-east-1.amazonaws.com:443'',
          aws_region = ''us-east-1'', service = ''execute-api'', aws_token = None\<rparr>"
    by (simp add: get_aws_auth_def example_netlocs(3) r example_credentials_def)
  with n example_netlocs(3) show ?thesis by (intro conjI)
qed

section \<open>The fixture loader: lemmas\<close>

lemma utf8_encode_code_scalar:
  "scalar_value cp \<Longrightarrow> \<exists>codes. utf8_encode_code cp = Inr codes \<and> codes \<noteq> []"
  by (auto simp: utf8_encode_code_def scalar_value_def)

lemma utf8_encode_scalar:
  "list_all scalar_value t \<Longrightarrow> \<exists>bs. utf8_encode t = Inr bs \<and> (t \<noteq> [] \<longrightarrow> bs \<noteq> [])"
proof (induction t)
  case Nil
  show ?case by simp
next
  case (Cons cp t)
  then obtain bs where bs: "utf8_encode t = Inr bs" by auto
  from Cons.prems utf8_encode_code_scalar [of cp] obtain codes where
    "utf8_encode_code cp = Inr codes" "codes \<noteq> []" by auto
  with bs show ?case by simp
qed

lemma universal_newlines_scalar:
  "list_all scalar_value t \<Longrightarrow> list_all scalar_value (universal_newlines t)"
  by (induction t rule: universal_newlines.induct) (auto simp: scalar_value_def)

lemma universal_newlines_nonempty: "t \<noteq> [] \<Longrightarrow> universal_newlines t \<noteq> []"
  by (induction t rule: universal_newlines.induct) auto

lemma universal_newlines_no_cr: "13 \<notin> set t \<Longrightarrow> universal_newlines t = t"
  by (induction t rule: universal_newlines.induct) auto

lemma emit_result: "emit b r = Inr t \<Longrightarrow> \<exists>t'. r = Inr t' \<and> t = b # t'"
  by (cases r) auto

lemma code2:
  fixes x y :: nat
  assumes "y < 64"
  shows "(x * 64 + y) div 64 = x" and "(x * 64 + y) mod 64 = y"
  using assms by simp_all

lemma code3:
  fixes x y z :: nat
  assumes "y < 64" "z < 64"
  shows "(x * 4096 + y * 64 + z) div 4096 = x"
    and "(x * 4096 + y * 64 + z) div 64 mod 64 = y"
    and "(x * 4096 + y * 64 + z) mod 64 = z"
    and "(x * 4096 + y * 64 + z) div 64 = x * 64 + y"
proof -
  have e: "x * 4096 + y * 64 + z = (x * 64 + y) * 64 + z" by simp
  show d: "(x * 4096 + y * 64 + z) div 64 = x * 64 + y"
    by (simp only: e code2(1) [OF assms(2)])
  show "(x * 4096 + y * 64 + z) div 64 mod 64 = y"
    by (simp only: d code2(2) [OF assms(1)])
  show "(x * 4096 + y * 64 + z) mod 64 = z"
    by (simp only: e code2(2) [OF assms(2)])
  have "(x * 4096 + y * 64 + z) div 4096 = (x * 4096 + y * 64 + z) div 64 div 64"
    by (simp add: div_mult2_eq [symmetric])
  then show "(x * 4096 + y * 64 + z) div 4096 = x"
    by (simp only: d code2(1) [OF assms(1)])
qed

lemma code4:
  fixes x y z w :: nat
  assumes "y < 64" "z < 64" "w < 64"
  shows "(x * 262144 + y * 4096 + z * 64 + w) div 262144 = x"
    and "(x * 262144 + y * 4096 + z * 64 + w) div 4096 mod 64 = y"
    and "(x * 262144 + y * 4096 + z * 64 + w) div 64 mod 64 = z"
    and "(x * 262144 + y * 4096 + z * 64 + w) mod 64 = w"
proof -
  let ?cp = "x * 262144 + y * 4096 + z * 64 + w"
  have e: "?cp = (x * 4096 + y * 64 + z) * 64 + w" by simp
  have d: "?cp div 64 = x * 4096 + y * 64 + z"
    by (simp only: e code2(1) [OF assms(3)])
  show "?cp mod 64 = w" by (simp only: e code2(2) [OF assms(3)])
  show "?cp div 64 mod 64 = z" by (simp only: d code3(3) [OF assms(1) assms(2)])
  have "?cp div 4096 = ?cp div 64 div 64" by (simp add: div_mult2_eq [symmetric])
  then have d2: "?cp div 4096 = x * 64 + y"
    by (simp only: d code3(4) [OF assms(1) assms(2)])
  show "?cp div 4096 mod 64 = y" by (simp only: d2 code2(2) [OF assms(1)])
  have "?cp div 262144 = ?cp div 4096 div 64" by (simp add: div_mult2_eq [symmetric])
  then show "?cp div 262144 = x" by (simp only: d2 code2(1) [OF assms(1)])
qed

lemma encode_decoded2:
  assumes "192 \<le> b0" "b0 < 224" "continuation b1" "128 \<le> (b0 - 192) * 64 + (b1 - 128)"
  shows "utf8_encode_code ((b0 - 192) * 64 + (b1 - 128)) = Inr [b0, b1]"
    and "scalar_value ((b0 - 192) * 64 + (b1 - 128))"
proof -
  define x y where "x = b0 - 192" and "y = b1 - 128"
  have b: "b0 = 192 + x" "b1 = 128 + y" and r: "x < 32" "y < 64"
    using assms(1-3) by (auto simp: x_def y_def continuation_def)
  have lo: "128 \<le> x * 64 + y" using assms(4) by (simp add: x_def y_def)
  have hi: "x * 64 + y < 2048" using r by linarith
  note c = code2 [OF r(2), of x]
  show "utf8_encode_code ((b0 - 192) * 64 + (b1 - 128)) = Inr [b0, b1]"
    unfolding x_def [symmetric] y_def [symmetric] using lo hi
    by (simp add: utf8_encode_code_def c b r)
  show "scalar_value ((b0 - 192) * 64 + (b1 - 128))"
    unfolding x_def [symmetric] y_def [symmetric] using hi by (simp add: scalar_value_def)
qed

lemma encode_decoded3:
  assumes "224 \<le> b0" "b0 < 240" "continuation b1" "continuation b2"
    and "2048 \<le> (b0 - 224) * 4096 + (b1 - 128) * 64 + (b2 - 128)"
    and "\<not> (55296 \<le> (b0 - 224) * 4096 + (b1 - 128) * 64 + (b2 - 128) \<and>
            (b0 - 224) * 4096 + (b1 - 128) * 64 + (b2 - 128) < 57344)"
  shows "utf8_encode_code ((b0 - 224) * 4096 + (b1 - 128) * 64 + (b2 - 128)) = Inr [b0, b1, b2]"
    and "scalar_value ((b0 - 224) * 4096 + (b1 - 128) * 64 + (b2 - 128))"
proof -
  define x y z where "x = b0 - 224" and "y = b1 - 128" and "z = b2 - 128"
  have b: "b0 = 224 + x" "b1 = 128 + y" "b2 = 128 + z" and r: "x < 16" "y < 64" "z < 64"
    using assms(1-4) by (auto simp: x_def y_def z_def continuation_def)
  have lo: "2048 \<le> x * 4096 + y * 64 + z"
    and ns: "\<not> (55296 \<le> x * 4096 + y * 64 + z \<and> x * 4096 + y * 64 + z < 57344)"
    using assms(5,6) by (simp_all add: x_def y_def z_def)
  have hi: "x * 4096 + y * 64 + z < 65536" using r by linarith
  note c = code3 [OF r(2) r(3), of x]
  show "utf8_encode_code ((b0 - 224) * 4096 + (b1 - 128) * 64 + (b2 - 128)) = Inr [b0, b1, b2]"
    unfolding x_def [symmetric] y_def [symmetric] z_def [symmetric] using lo hi ns
    by (simp add: utf8_encode_code_def c b r)
  show "scalar_value ((b0 - 224) * 4096 + (b1 - 128) * 64 + (b2 - 128))"
    unfolding x_def [symmetric] y_def [symmetric] z_def [symmetric] using hi ns
    by (simp add: scalar_value_def)
qed

lemma encode_decoded4:
  assumes "240 \<le> b0" "b0 < 248" "continuation b1" "continuation b2" "continuation b3"
    and "65536 \<le> (b0 - 240) * 262144 + (b1 - 128) * 4096 + (b2 - 128) * 64 + (b3 - 128)"
    and "(b0 - 240) * 262144 + (b1 - 128) * 4096 + (b2 - 128) * 64 + (b3 - 128) < 1114112"
  shows "utf8_encode_code
           ((b0 - 240) * 262144 + (b1 - 128) * 4096 + (b2 - 128) * 64 + (b3 - 128)) =
         Inr [b0, b1, b2, b3]"
    and "scalar_value ((b0 - 240) * 262144 + (b1 - 128) * 4096 + (b2 - 128) * 64 + (b3 - 128))"
proof -
  define x y z w where "x = b0 - 240" and "y = b1 - 128" and "z = b2 - 128" and "w = b3 - 128"
  have b: "b0 = 240 + x" "b1 = 128 + y" "b2 = 128 + z" "b3 = 128 + w"
    and r: "y < 64" "z < 64" "w < 64"
    using assms(1-5) by (auto simp: x_def y_def z_def w_def continuation_def)
  have lo: "65536 \<le> x * 262144 + y * 4096 + z * 64 + w"
    and hi: "x * 262144 + y * 4096 + z * 64 + w < 1114112"
    using assms(6,7) by (simp_all add: x_def y_def z_def w_def)
  note c = code4 [OF r, of x]
  show "utf8_encode_code
           ((b0 - 240) * 262144 + (b1 - 128) * 4096 + (b2 - 128) * 64 + (b3 - 128)) =
         Inr [b0, b1, b2, b3]"
    unfolding x_def [symmetric] y_def [symmetric] z_def [symmetric] w_def [symmetric]
    using lo hi by (simp add: utf8_encode_code_def c b r)
  show "scalar_value ((b0 - 240) * 262144 + (b1 - 128) * 4096 + (b2 - 128) * 64 + (b3 - 128))"
    unfolding x_def [symmetric] y_def [symmetric] z_def [symmetric] w_def [symmetric]
    using lo hi by (simp add: scalar_value_def)
qed

lemma utf8_encode_decoded:
  "utf8_decode_codes bs = Inr t \<Longrightarrow>
     utf8_encode t = Inr (map char_of bs) \<and> list_all scalar_value t \<and> (bs \<noteq> [] \<longrightarrow> t \<noteq> [])"
proof (induction "length bs" arbitrary: bs t rule: less_induct)
  case less
  show ?case
  proof (cases bs)
    case Nil
    with less.prems show ?thesis by simp
  next
    case (Cons b0 r)
    consider (a) "b0 < 128" | (b) "192 \<le> b0" "b0 < 224" | (c) "224 \<le> b0" "b0 < 240"
      | (d) "240 \<le> b0" "b0 < 248" | (e) "128 \<le> b0 \<and> b0 < 192 \<or> 248 \<le> b0"
      by linarith
    then show ?thesis
    proof cases
      case a
      with less.prems Cons obtain t' where
        d: "utf8_decode_codes r = Inr t'" and t: "t = b0 # t'"
        by (auto dest!: emit_result)
      have "length r < length bs" by (simp add: Cons)
      from less.hyps [OF this d]
      have ih: "utf8_encode t' = Inr (map char_of r)" "list_all scalar_value t'" by simp_all
      have "utf8_encode_code b0 = Inr [b0]" "scalar_value b0"
        using a by (simp_all add: utf8_encode_code_def scalar_value_def)
      with ih show ?thesis by (simp add: t Cons)
    next
      case b
      with less.prems Cons obtain b1 r' t' where
        r: "r = b1 # r'" and c: "continuation b1" "128 \<le> (b0 - 192) * 64 + (b1 - 128)"
        and d: "utf8_decode_codes r' = Inr t'" and t: "t = ((b0 - 192) * 64 + (b1 - 128)) # t'"
        by (auto simp: Let_def split: list.splits if_splits dest!: emit_result)
      have "length r' < length bs" by (simp add: Cons r)
      from less.hyps [OF this d]
      have ih: "utf8_encode t' = Inr (map char_of r')" "list_all scalar_value t'" by simp_all
      note e = encode_decoded2 [OF b c]
      with ih show ?thesis by (simp add: t Cons r)
    next
      case c
      with less.prems Cons obtain b1 b2 r' t' where
        r: "r = b1 # b2 # r'" and k: "continuation b1" "continuation b2"
          "2048 \<le> (b0 - 224) * 4096 + (b1 - 128) * 64 + (b2 - 128)"
          "\<not> (55296 \<le> (b0 - 224) * 4096 + (b1 - 128) * 64 + (b2 - 128) \<and>
              (b0 - 224) * 4096 + (b1 - 128) * 64 + (b2 - 128) < 57344)"
        and d: "utf8_decode_codes r' = Inr t'"
        and t: "t = ((b0 - 224) * 4096 + (b1 - 128) * 64 + (b2 - 128)) # t'"
        by (auto simp: Let_def split: list.splits if_splits dest!: emit_result)
      have "length r' < length bs" by (simp add: Cons r)
      from less.hyps [OF this d]
      have ih: "utf8_encode t' = Inr (map char_of r')" "list_all scalar_value t'" by simp_all
      note e = encode_decoded3 [OF c k]
      with ih show ?thesis by (simp add: t Cons r)
    next
      case d
      with less.prems Cons obtain b1 b2 b3 r' t' where
        r: "r = b1 # b2 # b3 # r'" and k: "continuation b1" "continuation b2" "continuation b3"
          "65536 \<le> (b0 - 240) * 262144 + (b1 - 128) * 4096 + (b2 - 128) * 64 + (b3 - 128)"
          "(b0 - 240) * 262144 + (b1 - 128) * 4096 + (b2 - 128) * 64 + (b3 - 128) < 1114112"
        and dd: "utf8_decode_codes r' = Inr t'"
        and t: "t = ((b0 - 240) * 262144 + (b1 - 128) * 4096 + (b2 - 128) * 64 + (b3 - 128)) # t'"
        by (auto simp: Let_def split: list.splits if_splits dest!: emit_result)
      have "length r' < length bs" by (simp add: Cons r)
      from less.hyps [OF this dd]
      have ih: "utf8_encode t' = Inr (map char_of r')" "list_all scalar_value t'" by simp_all
      note e = encode_decoded4 [OF d k]
      with ih show ?thesis by (simp add: t Cons r)
    next
      case e
      with less.prems Cons show ?thesis by auto
    qed
  qed
qed

lemma utf8_encode_utf8_decode:
  assumes "utf8_decode raw = Inr t"
  shows "utf8_encode t = Inr raw" and "list_all scalar_value t" and "raw \<noteq> [] \<Longrightarrow> t \<noteq> []"
  using utf8_encode_decoded [of "map of_char raw" t] assms
  by (simp_all add: utf8_decode_def comp_def)

text \<open>
  C9, as the code has it. When opening or reading the file named by the stripped filename
  fails, the error is propagated. For a file whose bytes are valid UTF-8, read in a UTF-8
  locale, \<^verbatim>\<open>read_xml_file_contents\<close> returns bytes that decode to the file's text with its
  line endings translated: they are non-empty when the file is, and they are the bytes on
  disk when the text has no carriage return.
\<close>

theorem read_xml_file_contents_text:
  "(files (''./spekev2_requests/'' @ strip filename) = Inl e \<longrightarrow>
      read_xml_file_contents files locale_decode filename = Inl e) \<and>
   (files (''./spekev2_requests/'' @ strip filename) = Inr raw \<and> utf8_decode raw = Inr t \<longrightarrow>
      (\<exists>b. read_xml_file_contents files utf8_decode filename = Inr b \<and>
           utf8_decode b = Inr (universal_newlines t) \<and>
           (raw \<noteq> [] \<longrightarrow> b \<noteq> []) \<and>
           (13 \<notin> set t \<longrightarrow> b = raw)))"
proof (intro conjI impI)
  assume "files (''./spekev2_requests/'' @ strip filename) = Inl e"
  then show "read_xml_file_contents files locale_decode filename = Inl e"
    by (simp add: read_xml_file_contents_def)
next
  assume a: "files (''./spekev2_requests/'' @ strip filename) = Inr raw \<and> utf8_decode raw = Inr t"
  then have d: "utf8_decode raw = Inr t" by simp
  note raw = utf8_encode_utf8_decode [OF d]
  from utf8_encode_scalar [OF universal_newlines_scalar [OF raw(2)]]
  obtain b where b: "utf8_encode (universal_newlines t) = Inr b"
    and ne: "universal_newlines t \<noteq> [] \<longrightarrow> b \<noteq> []"
    by blast
  have r: "read_xml_file_contents files utf8_decode filename = Inr b"
    using a b by (simp add: read_xml_file_contents_def)
  have u: "utf8_decode b = Inr (universal_newlines t)"
    using b by (rule utf8_decode_encode)
  have n: "raw \<noteq> [] \<longrightarrow> b \<noteq> []"
    using raw(3) universal_newlines_nonempty [of t] ne by blast
  have c: "13 \<notin> set t \<longrightarrow> b = raw"
  proof
    assume "13 \<notin> set t"
    then have "universal_newlines t = t" by (rule universal_newlines_no_cr)
    with b raw(1) show "b = raw" by simp
  qed
  from r u n c show "\<exists>b. read_xml_file_contents files utf8_decode filename = Inr b \<and>
      utf8_decode b = Inr (universal_newlines t) \<and> (raw \<noteq> [] \<longrightarrow> b \<noteq> []) \<and>
      (13 \<notin> set t \<longrightarrow> b = raw)"
    by blast
qed

lemma example_lookups:
  "example_files (''./spekev2_requests/'' @ strip '' request.xml '') = Inr ''<cpix:CPIX/>''"
  "example_files (''./spekev2_requests/'' @ strip ''missing.xml'') = Inl OSError"
  "example_files (''./spekev2_requests/'' @ strip ''crlf.xml'') =
     Inr (''<cpix:CPIX/>'' @ [CHR 0x0D, CHR 0x0A])"
  "example_files (''./spekev2_requests/'' @ strip ''empty.xml'') = Inr []"
  by (simp_all add: example_files_def strip_def isspace_def)

lemma example_text: "utf8_decode ''<cpix:CPIX/>'' = Inr (str ''<cpix:CPIX/>'')"
  by (simp add: utf8_decode_def str_def)

text \<open>A request file, named with spaces around the name, and a missing file.\<close>

theorem read_xml_file_contents_text_witness:
  "example_files (''./spekev2_requests/'' @ strip '' request.xml '') = Inr ''<cpix:CPIX/>'' \<and>
   utf8_decode ''<cpix:CPIX/>'' = Inr (str ''<cpix:CPIX/>'') \<and>
   read_xml_file_contents example_files utf8_decode '' request.xml '' = Inr ''<cpix:CPIX/>'' \<and>
   example_files (''./spekev2_requests/'' @ strip ''missing.xml'') = Inl OSError \<and>
   read_xml_file_contents example_files utf8_decode ''missing.xml'' = Inl OSError"
proof -
  have n: "13 \<notin> set (str ''<cpix:CPIX/>'')" by (simp add: str_def)
  from read_xml_file_contents_text [where files = example_files
      and filename = "'' request.xml ''" and raw = "''<cpix:CPIX/>''"
      and t = "str ''<cpix:CPIX/>''"]
    example_lookups(1) example_text n
  have 1: "read_xml_file_contents example_files utf8_decode '' request.xml '' =
      Inr ''<cpix:CPIX/>''"
    by blast
  from read_xml_file_contents_text [where files = example_files
      and filename = "''missing.xml''" and e = OSError and locale_decode = utf8_decode]
    example_lookups(2)
  have 2: "read_xml_file_contents example_files utf8_decode ''missing.xml'' = Inl OSError"
    by blast
  show ?thesis by (intro conjI example_lookups(1) example_lookups(2) example_text 1 2)
qed

text \<open>
  A file with a Windows line ending is not returned as it is on disk, and an empty file
  gives empty bytes.
\<close>

theorem fixture_bytes_counterexample:
  "example_files (''./spekev2_requests/'' @ strip ''crlf.xml'') =
     Inr (''<cpix:CPIX/>'' @ [CHR 0x0D, CHR 0x0A]) \<and>
   read_xml_file_contents example_files utf8_decode ''crlf.xml'' \<noteq>
     Inr (''<cpix:CPIX/>'' @ [CHR 0x0D, CHR 0x0A]) \<and>
   example_files (''./spekev2_requests/'' @ strip ''empty.xml'') = Inr [] \<and>
   read_xml_file_contents example_files utf8_decode ''empty.xml'' = Inr []"
proof -
  have "\<exists>b. read_xml_file_contents example_files utf8_decode ''crlf.xml'' = Inr b \<and>
      length b = 13"
    by (simp only: read_xml_file_contents_def example_lookups(3) sum.case)
       (simp add: utf8_decode_def utf8_encode_code_def)
  then have 1: "read_xml_file_contents example_files utf8_decode ''crlf.xml'' \<noteq>
      Inr (''<cpix:CPIX/>'' @ [CHR 0x0D, CHR 0x0A])"
    by auto
  have 2: "read_xml_file_contents example_files utf8_decode ''empty.xml'' = Inr []"
    by (simp only: read_xml_file_contents_def example_lookups(4) sum.case)
       (simp add: utf8_decode_def)
  show ?thesis by (intro conjI example_lookups(3) example_lookups(4) 1 2)
qed

end
